theory Spec2Isabelle
  imports Main "HOL-Library.Word"
begin

unbundle bit_operations_syntax

section \<open>Machine-level vocabulary of \<^verbatim>\<open>vc4_kms.c\<close>\<close>

text \<open>
  The driver is C. Its integers are fixed-width: \<^verbatim>\<open>u16\<close>, \<^verbatim>\<open>unsigned int\<close> and
  \<^verbatim>\<open>int\<close> (32 bits), \<^verbatim>\<open>u64\<close>, and \<^verbatim>\<open>unsigned long\<close>, whose width is that of the
  build (32 on arm, 64 on arm64) and is kept as the type parameter \<open>'l\<close> throughout.
\<close>

type_synonym u16 = "16 word"
type_synonym u32 = "32 word"
type_synonym u64 = "64 word"

text \<open>
  A function of the driver that returns \<^verbatim>\<open>int\<close> returns 0 (\<open>Success\<close>) or a negative
  errno (\<open>Error e\<close> for \<^verbatim>\<open>-e\<close>). \<open>Undefined\<close> stands for the executions C gives no
  meaning to: a dereference of a pointer that is not valid, a shift by the width of the
  type or more.
\<close>

datatype errno = EINVAL | ENOSPC | ENOMEM | EDEADLK | EINTR

datatype outcome = Success | Error errno | Undefined

text \<open>
  A pointer returned by the framework: \<^verbatim>\<open>NULL\<close>, an error pointer \<^verbatim>\<open>ERR_PTR(-e)\<close>, or a
  valid pointer to the transaction's private copy of the object asked for.
\<close>

datatype pointer = NULL | ERR_PTR errno | VALID

definition HVS_NUM_CHANNELS :: nat where
  "HVS_NUM_CHANNELS = 3"

text \<open>
  \<^verbatim>\<open>BIT(nr)\<close> is \<^verbatim>\<open>1UL << nr\<close> and \<^verbatim>\<open>BIT_ULL(nr)\<close> is \<^verbatim>\<open>1ULL << nr\<close>;
  \<^verbatim>\<open>GENMASK(h, l)\<close> is
  \<^verbatim>\<open>((~0UL) - (1UL << l) + 1) & (~0UL >> (BITS_PER_LONG - 1 - h))\<close>, and
  \<^verbatim>\<open>GENMASK_ULL\<close> the same on 64 bits. The definition is written once, for any width.
\<close>

definition BIT :: "nat \<Rightarrow> 'a::len word" where
  "BIT nr = push_bit nr 1"

definition GENMASK :: "nat \<Rightarrow> nat \<Rightarrow> 'a::len word" where
  "GENMASK h l = ((NOT 0) - push_bit l 1 + 1) AND drop_bit (LENGTH('a) - 1 - h) (NOT 0)"

text \<open>
  \<^verbatim>\<open>ffs(x)\<close>: the 1-based position of the least significant set bit of a 32-bit value,
  0 when no bit is set.
\<close>

definition ffs :: "u32 \<Rightarrow> nat" where
  "ffs x = (case find (bit x) [0..<32] of None \<Rightarrow> 0 | Some n \<Rightarrow> Suc n)"

section \<open>Colour-matrix coefficients\<close>

text \<open>
  \<^verbatim>\<open>vc4_ctm_s31_32_to_s0_9\<close>: a DRM S31.32 sign-magnitude value to the hardware's S0.9.
  The right-hand side of each \<^verbatim>\<open>r |= ...\<close> is computed at its own width and truncated
  to \<^verbatim>\<open>u16\<close> by the assignment.
\<close>

definition vc4_ctm_s31_32_to_s0_9 :: "u64 \<Rightarrow> u16" where
  "vc4_ctm_s31_32_to_s0_9 inp =
     (let r = (if inp AND BIT 63 \<noteq> 0 then BIT 9 else 0) in
      if inp AND GENMASK 62 32 > 0
      then r OR GENMASK 8 0
      else r OR ucast (drop_bit 23 inp AND GENMASK 8 0))"

text \<open>
  The coefficient loop of \<^verbatim>\<open>vc4_ctm_atomic_check\<close>:
  \<^verbatim>\<open>for (i = 0; i < ARRAY_SIZE(ctm->matrix); i++) { u64 val = ctm->matrix[i];
  val &= ~BIT_ULL(63); if (val > BIT_ULL(32)) return -EINVAL; }\<close>.
  \<^verbatim>\<open>struct drm_color_ctm\<close> holds \<^verbatim>\<open>__u64 matrix[9]\<close>, here a list read at the indices
  0 to 8. The loop answers \<open>False\<close> where the C returns \<^verbatim>\<open>-EINVAL\<close>, and \<open>True\<close>
  where it runs to its end (leaving \<^verbatim>\<open>i = 9\<close>).
\<close>

type_synonym drm_color_ctm = "u64 list"

definition ctm_coef_too_large :: "u64 \<Rightarrow> bool" where
  "ctm_coef_too_large c = ((c AND NOT (BIT 63)) > BIT 32)"

function ctm_matrix_loop :: "drm_color_ctm \<Rightarrow> nat \<Rightarrow> bool" where
  "ctm_matrix_loop m i =
     (if i < 9
      then (if ctm_coef_too_large (m ! i) then False else ctm_matrix_loop m (Suc i))
      else True)"
  by pat_completeness auto
termination
  by (relation "measure (\<lambda>(m, i). 9 - i)") auto

declare ctm_matrix_loop.simps [simp del]

section \<open>The state of a transaction\<close>

text \<open>
  The three private objects of the driver. \<^verbatim>\<open>struct vc4_ctm_state\<close> has the pointer
  \<^verbatim>\<open>ctm\<close> to the matrix in use (\<open>None\<close> for \<^verbatim>\<open>NULL\<close>), here \<open>ctm_ptr\<close>, and the
  \<^verbatim>\<open>int fifo\<close>, of which only the 32 bits are used (it is compared and assigned).
\<close>

record vc4_ctm_state =
  ctm_ptr :: "drm_color_ctm option"
  fifo :: u32

record (overloaded) 'l vc4_hvs_state =
  unassigned_channels :: u32
  num_outputs :: u32
  fifo_load :: "'l word"
  core_clock_rate :: "'l word"

record vc4_load_tracker_state =
  hvs_load :: u64
  membus_load :: u64

text \<open>
  A CRTC state: the fields of \<^verbatim>\<open>struct drm_crtc_state\<close> (\<^verbatim>\<open>enable\<close>, \<^verbatim>\<open>active\<close>,
  the blob pointer \<^verbatim>\<open>ctm\<close>) and of \<^verbatim>\<open>struct vc4_crtc_state\<close> around it
  (\<^verbatim>\<open>assigned_channel\<close>, \<^verbatim>\<open>update_muxing\<close>, \<^verbatim>\<open>hvs_load\<close>, here \<open>crtc_hvs_load\<close>)
  that \<^verbatim>\<open>vc4_kms.c\<close> reads or writes. Two blob pointers are equal when they point to the
  same blob object, which \<open>base_id\<close> identifies.
\<close>

record drm_property_blob =
  base_id :: nat
  data :: drm_color_ctm

record (overloaded) 'l vc4_crtc_state =
  enable :: bool
  active :: bool
  ctm :: "drm_property_blob option"
  assigned_channel :: u32
  update_muxing :: bool
  crtc_hvs_load :: "'l word"

text \<open>
  \<^verbatim>\<open>VC4_HVS_CHANNEL_DISABLED\<close> is \<^verbatim>\<open>((unsigned int)-1)\<close> in the driver's header: the
  value of \<^verbatim>\<open>assigned_channel\<close> of a CRTC that has no channel.
\<close>

definition VC4_HVS_CHANNEL_DISABLED :: u32 where
  "VC4_HVS_CHANNEL_DISABLED = - 1"

text \<open>
  An entry \<^verbatim>\<open>state->crtcs[i]\<close> of a transaction whose \<^verbatim>\<open>ptr\<close> is set: the old and the new
  state of the CRTC, and the CRTC's fixed \<^verbatim>\<open>data->hvs_available_channels\<close>. An entry whose
  \<^verbatim>\<open>ptr\<close> is \<^verbatim>\<open>NULL\<close> (the CRTC is not part of the transaction) is \<open>None\<close>.
\<close>

record (overloaded) 'l crtc_slot =
  hvs_available_channels :: u32
  old_crtc_state :: "'l vc4_crtc_state"
  new_crtc_state :: "'l vc4_crtc_state"

text \<open>
  A plane state: \<open>fb\<close> and \<open>crtc\<close> say whether the pointers of that name are set;
  \<^verbatim>\<open>membus_load\<close> and \<^verbatim>\<open>hvs_load\<close> of \<^verbatim>\<open>struct vc4_plane_state\<close> are here
  \<open>plane_membus_load\<close> and \<open>plane_hvs_load\<close>.
\<close>

record vc4_plane_state =
  fb :: bool
  crtc :: bool
  plane_membus_load :: u64
  plane_hvs_load :: u64

record plane_slot =
  old_plane_state :: vc4_plane_state
  new_plane_state :: vc4_plane_state

text \<open>
  The device: its two flags, and the published (current) state of each private object,
  \<^verbatim>\<open>vc4->ctm_manager.state\<close>, \<^verbatim>\<open>vc4->load_tracker.state\<close> and \<^verbatim>\<open>vc4->hvs_channels.state\<close>.
\<close>

record (overloaded) 'l vc4_dev =
  firmware_kms :: bool
  load_tracker_enabled :: bool
  ctm_manager :: vc4_ctm_state
  load_tracker :: vc4_load_tracker_state
  hvs_channels :: "'l vc4_hvs_state"

text \<open>
  A transaction (\<^verbatim>\<open>struct drm_atomic_state\<close>): the device it is for, its CRTC and plane
  entries (\<^verbatim>\<open>mode_config.num_crtc\<close> and \<^verbatim>\<open>num_total_plane\<close> are the lengths of the two
  arrays), and for each private object the transaction's private copy, \<open>None\<close> until the
  object has been made part of the transaction. The fields \<open>ctm_obtain\<close>,
  \<open>load_obtain\<close> and \<open>hvs_obtain\<close> are the environment: what taking the object's
  modeset lock and duplicating its state answers when the object is first asked for,
  \<open>None\<close> when both succeed and the errno otherwise (\<^verbatim>\<open>-EDEADLK\<close>, \<^verbatim>\<open>-EINTR\<close>,
  \<^verbatim>\<open>-ENOMEM\<close> when \<^verbatim>\<open>kmemdup\<close> or \<^verbatim>\<open>kzalloc\<close> returns \<^verbatim>\<open>NULL\<close>).
\<close>

record (overloaded) 'l drm_atomic_state =
  dev :: "'l vc4_dev"
  crtcs :: "'l crtc_slot option list"
  planes :: "plane_slot option list"
  ctm_priv :: "vc4_ctm_state option"
  load_priv :: "vc4_load_tracker_state option"
  hvs_priv :: "'l vc4_hvs_state option"
  ctm_obtain :: "errno option"
  load_obtain :: "errno option"
  hvs_obtain :: "errno option"

section \<open>Private copies\<close>

text \<open>
  The three \<^verbatim>\<open>atomic_duplicate_state\<close> hooks. \<^verbatim>\<open>vc4_ctm_duplicate_state\<close> and
  \<^verbatim>\<open>vc4_load_tracker_duplicate_state\<close> copy the published object with \<^verbatim>\<open>kmemdup\<close>;
  \<^verbatim>\<open>vc4_hvs_channels_duplicate_state\<close> allocates a zeroed object and copies the four
  fields one by one.
\<close>

definition vc4_ctm_duplicate_state :: "vc4_ctm_state \<Rightarrow> vc4_ctm_state" where
  "vc4_ctm_duplicate_state obj_state = obj_state"

definition vc4_load_tracker_duplicate_state :: "vc4_load_tracker_state \<Rightarrow> vc4_load_tracker_state" where
  "vc4_load_tracker_duplicate_state obj_state = obj_state"

definition vc4_hvs_channels_duplicate_state :: "'l::len vc4_hvs_state \<Rightarrow> 'l vc4_hvs_state" where
  "vc4_hvs_channels_duplicate_state old_state =
     \<lparr>unassigned_channels = unassigned_channels old_state,
      num_outputs = num_outputs old_state,
      fifo_load = fifo_load old_state,
      core_clock_rate = core_clock_rate old_state\<rparr>"

text \<open>
  \<^verbatim>\<open>drm_atomic_get_private_obj_state\<close>, for each of the three objects: the private copy
  the transaction already has, or else a fresh duplicate of the published state, recorded
  in the transaction; an error pointer when the object cannot be obtained.
  \<^verbatim>\<open>vc4_get_ctm_state\<close> takes \<^verbatim>\<open>ctm_state_lock\<close> first and passes its error on the same
  way. The framework never answers \<^verbatim>\<open>NULL\<close>.
\<close>

definition vc4_get_ctm_state :: "'l::len drm_atomic_state \<Rightarrow> pointer \<times> 'l drm_atomic_state" where
  "vc4_get_ctm_state state =
     (case ctm_priv state of
        Some _ \<Rightarrow> (VALID, state)
      | None \<Rightarrow>
          (case ctm_obtain state of
             Some e \<Rightarrow> (ERR_PTR e, state)
           | None \<Rightarrow>
               (VALID, state\<lparr>ctm_priv := Some (vc4_ctm_duplicate_state (ctm_manager (dev state)))\<rparr>)))"

definition load_tracker_get_state :: "'l::len drm_atomic_state \<Rightarrow> pointer \<times> 'l drm_atomic_state" where
  "load_tracker_get_state state =
     (case load_priv state of
        Some _ \<Rightarrow> (VALID, state)
      | None \<Rightarrow>
          (case load_obtain state of
             Some e \<Rightarrow> (ERR_PTR e, state)
           | None \<Rightarrow>
               (VALID, state\<lparr>load_priv :=
                  Some (vc4_load_tracker_duplicate_state (load_tracker (dev state)))\<rparr>)))"

definition vc4_hvs_get_global_state :: "'l::len drm_atomic_state \<Rightarrow> pointer \<times> 'l drm_atomic_state" where
  "vc4_hvs_get_global_state state =
     (case hvs_priv state of
        Some _ \<Rightarrow> (VALID, state)
      | None \<Rightarrow>
          (case hvs_obtain state of
             Some e \<Rightarrow> (ERR_PTR e, state)
           | None \<Rightarrow>
               (VALID, state\<lparr>hvs_priv :=
                  Some (vc4_hvs_channels_duplicate_state (hvs_channels (dev state)))\<rparr>)))"

section \<open>Channel assignment\<close>

text \<open>
  The body of the loop of \<^verbatim>\<open>vc4_pv_muxing_atomic_check\<close> for one CRTC of the transaction.
  \<open>h\<close> is the object \<^verbatim>\<open>hvs_new_state\<close> points to, \<open>None\<close> when that pointer is not
  valid. The body answers \<open>None\<close> where the C goes on to the next CRTC and \<open>Some r\<close>
  where it returns \<open>r\<close>.

  \<^verbatim>\<open>BIT(n)\<close> is \<^verbatim>\<open>1UL << n\<close>: undefined when \<open>n\<close> is the width of \<^verbatim>\<open>unsigned long\<close> or
  more; the bits an \<^verbatim>\<open>unsigned long\<close> has above bit 31 are dropped by the assignment to
  the \<^verbatim>\<open>unsigned int\<close> field, so that the mask is computed on 32 bits here.
\<close>

definition pv_muxing_crtc ::
  "bool \<Rightarrow> 'l::len vc4_hvs_state option \<Rightarrow> 'l crtc_slot
    \<Rightarrow> outcome option \<times> 'l vc4_hvs_state option \<times> 'l crtc_slot" where
  "pv_muxing_crtc fw h c =
     (if fw then (None, h, c)
      else if enable (old_crtc_state c) = enable (new_crtc_state c) then (None, h, c)
      else
        let c1 = c\<lparr>new_crtc_state := (new_crtc_state c)\<lparr>update_muxing := True\<rparr>\<rparr> in
        if \<not> enable (new_crtc_state c1) then
          (case h of
             None \<Rightarrow> (Some Undefined, h, c1)
           | Some hvs_new_state \<Rightarrow>
               if unat (assigned_channel (old_crtc_state c1)) < LENGTH('l) then
                 (None,
                  Some (hvs_new_state\<lparr>unassigned_channels :=
                     unassigned_channels hvs_new_state
                       OR BIT (unat (assigned_channel (old_crtc_state c1)))\<rparr>),
                  c1\<lparr>new_crtc_state :=
                     (new_crtc_state c1)\<lparr>assigned_channel := VC4_HVS_CHANNEL_DISABLED\<rparr>\<rparr>)
               else (Some Undefined, h, c1))
        else
          (case h of
             None \<Rightarrow> (Some Undefined, h, c1)
           | Some hvs_new_state \<Rightarrow>
               let matching_channels =
                     unassigned_channels hvs_new_state AND hvs_available_channels c1 in
               if matching_channels \<noteq> 0 then
                 let channel = ffs matching_channels - 1 in
                 (None,
                  Some (hvs_new_state\<lparr>unassigned_channels :=
                     unassigned_channels hvs_new_state AND NOT (BIT channel)\<rparr>),
                  c1\<lparr>new_crtc_state :=
                     (new_crtc_state c1)\<lparr>assigned_channel := word_of_nat channel\<rparr>\<rparr>)
               else (Some (Error EINVAL), h, c1)))"

text \<open>
  \<^verbatim>\<open>for_each_oldnew_crtc_in_state(state, crtc, old, new, i)\<close> is
  \<^verbatim>\<open>for (i = 0; i < num_crtc; i++)\<close> over the entries \<^verbatim>\<open>state->crtcs[i]\<close> whose
  \<^verbatim>\<open>ptr\<close> is set. Where the body leaves \<^verbatim>\<open>i\<close> alone, this is a walk along the array.
\<close>

fun pv_muxing_loop ::
  "bool \<Rightarrow> 'l::len vc4_hvs_state option \<Rightarrow> 'l crtc_slot option list
    \<Rightarrow> outcome \<times> 'l vc4_hvs_state option \<times> 'l crtc_slot option list" where
  "pv_muxing_loop fw h [] = (Success, h, [])"
| "pv_muxing_loop fw h (None # cs) =
     (case pv_muxing_loop fw h cs of (r, h', cs') \<Rightarrow> (r, h', None # cs'))"
| "pv_muxing_loop fw h (Some c # cs) =
     (case pv_muxing_crtc fw h c of
        (Some r, h', c') \<Rightarrow> (r, h', Some c' # cs)
      | (None, h', c') \<Rightarrow>
          (case pv_muxing_loop fw h' cs of (r, h'', cs') \<Rightarrow> (r, h'', Some c' # cs')))"

text \<open>
  \<^verbatim>\<open>vc4_pv_muxing_atomic_check\<close>. The pointer is tested against \<^verbatim>\<open>NULL\<close> only, so that
  an error pointer reaches the loop, where the first CRTC that needs the object
  dereferences it.
\<close>

definition vc4_pv_muxing_atomic_check ::
  "'l::len drm_atomic_state \<Rightarrow> outcome \<times> 'l drm_atomic_state" where
  "vc4_pv_muxing_atomic_check state =
     (case vc4_hvs_get_global_state state of
        (NULL, s1) \<Rightarrow> (Error EINVAL, s1)
      | (ERR_PTR e, s1) \<Rightarrow>
          (case pv_muxing_loop (firmware_kms (dev s1)) None (crtcs s1) of
             (r, h', cs') \<Rightarrow> (r, s1\<lparr>crtcs := cs'\<rparr>))
      | (VALID, s1) \<Rightarrow>
          (case pv_muxing_loop (firmware_kms (dev s1)) (hvs_priv s1) (crtcs s1) of
             (r, h', cs') \<Rightarrow> (r, s1\<lparr>hvs_priv := h', crtcs := cs'\<rparr>)))"

section \<open>Colour-matrix admission\<close>

text \<open>
  The first loop of \<^verbatim>\<open>vc4_ctm_atomic_check\<close>: every CRTC whose matrix goes from set to
  unset obtains the private CTM state and clears \<^verbatim>\<open>fifo\<close>. \<open>p\<close> is the local pointer
  \<^verbatim>\<open>ctm_state\<close>, which starts as \<^verbatim>\<open>NULL\<close>; what it points to, once valid, is the
  transaction's private copy \<open>ctm_priv\<close>.
\<close>

fun ctm_disable_loop ::
  "pointer \<Rightarrow> 'l::len drm_atomic_state \<Rightarrow> 'l crtc_slot option list
    \<Rightarrow> outcome option \<times> pointer \<times> 'l drm_atomic_state" where
  "ctm_disable_loop p s [] = (None, p, s)"
| "ctm_disable_loop p s (None # cs) = ctm_disable_loop p s cs"
| "ctm_disable_loop p s (Some c # cs) =
     (if ctm (new_crtc_state c) = None \<and> ctm (old_crtc_state c) \<noteq> None then
        (case vc4_get_ctm_state s of
           (ERR_PTR e, s1) \<Rightarrow> (Some (Error e), ERR_PTR e, s1)
         | (NULL, s1) \<Rightarrow> (Some Undefined, NULL, s1)
         | (VALID, s1) \<Rightarrow>
             ctm_disable_loop VALID
               (s1\<lparr>ctm_priv := map_option (\<lambda>ctm_state. ctm_state\<lparr>fifo := 0\<rparr>) (ctm_priv s1)\<rparr>) cs)
      else ctm_disable_loop p s cs)"

text \<open>
  The second loop. Its body runs the coefficient loop on the same variable \<^verbatim>\<open>i\<close> that
  \<^verbatim>\<open>for_each_oldnew_crtc_in_state\<close> counts the CRTCs with: a matrix that passes leaves
  \<^verbatim>\<open>i = 9\<close>, and the CRTC loop goes on from \<^verbatim>\<open>i = 10\<close>. The loop is therefore written
  on the index, as the macro is. It need not end (a CRTC at index 10 or above whose matrix
  passes sends the loop back to index 10), so not returning is the value \<open>None\<close>.
\<close>

partial_function (option) ctm_enable_loop ::
  "pointer \<Rightarrow> 'l::len drm_atomic_state \<Rightarrow> nat \<Rightarrow> (outcome \<times> 'l drm_atomic_state) option" where
  "ctm_enable_loop p s i =
     (if i < length (crtcs s) then
        (case crtcs s ! i of
           None \<Rightarrow> ctm_enable_loop p s (Suc i)
         | Some c \<Rightarrow>
             if ctm (new_crtc_state c) = ctm (old_crtc_state c) then ctm_enable_loop p s (Suc i)
             else
               (case (if p = NULL then vc4_get_ctm_state s else (p, s)) of
                  (ERR_PTR e, s1) \<Rightarrow> Some (Error e, s1)
                | (NULL, s1) \<Rightarrow> Some (Undefined, s1)
                | (VALID, s1) \<Rightarrow>
                    (case ctm (new_crtc_state c) of
                       None \<Rightarrow> ctm_enable_loop VALID s1 (Suc i)
                     | Some blob \<Rightarrow>
                         (case ctm_priv s1 of
                            None \<Rightarrow> Some (Undefined, s1)
                          | Some ctm_state \<Rightarrow>
                              let fifo' = assigned_channel (new_crtc_state c) + 1 in
                              if fifo ctm_state \<noteq> 0 \<and> fifo ctm_state \<noteq> fifo'
                              then Some (Error EINVAL, s1)
                              else if \<not> ctm_matrix_loop (data blob) 0
                              then Some (Error EINVAL, s1)
                              else
                                ctm_enable_loop VALID
                                  (s1\<lparr>ctm_priv :=
                                     Some (ctm_state\<lparr>fifo := fifo', ctm_ptr := Some (data blob)\<rparr>)\<rparr>)
                                  (Suc 9)))))
      else Some (Success, s))"

definition vc4_ctm_atomic_check ::
  "'l::len drm_atomic_state \<Rightarrow> (outcome \<times> 'l drm_atomic_state) option" where
  "vc4_ctm_atomic_check state =
     (case ctm_disable_loop NULL state (crtcs state) of
        (Some r, p, s1) \<Rightarrow> Some (r, s1)
      | (None, p, s1) \<Rightarrow> ctm_enable_loop p s1 0)"

section \<open>Load tracking\<close>

definition SZ_512M :: u64 where
  "SZ_512M = 0x20000000"

definition SZ_1G :: u64 where
  "SZ_1G = 0x40000000"

definition load_tracker_plane :: "vc4_load_tracker_state \<Rightarrow> plane_slot \<Rightarrow> vc4_load_tracker_state" where
  "load_tracker_plane load_state p =
     (let ls1 =
            (if fb (old_plane_state p) \<and> crtc (old_plane_state p)
             then load_state
                    \<lparr>membus_load := membus_load load_state - plane_membus_load (old_plane_state p),
                     hvs_load := hvs_load load_state - plane_hvs_load (old_plane_state p)\<rparr>
             else load_state)
      in if fb (new_plane_state p) \<and> crtc (new_plane_state p)
         then ls1\<lparr>membus_load := membus_load ls1 + plane_membus_load (new_plane_state p),
                  hvs_load := hvs_load ls1 + plane_hvs_load (new_plane_state p)\<rparr>
         else ls1)"

text \<open>\<^verbatim>\<open>for_each_oldnew_plane_in_state\<close>, over the plane entries whose \<^verbatim>\<open>ptr\<close> is set.\<close>

fun load_tracker_loop ::
  "vc4_load_tracker_state \<Rightarrow> plane_slot option list \<Rightarrow> vc4_load_tracker_state" where
  "load_tracker_loop load_state [] = load_state"
| "load_tracker_loop load_state (None # ps) = load_tracker_loop load_state ps"
| "load_tracker_loop load_state (Some p # ps) =
     load_tracker_loop (load_tracker_plane load_state p) ps"

definition vc4_load_tracker_atomic_check ::
  "'l::len drm_atomic_state \<Rightarrow> outcome \<times> 'l drm_atomic_state" where
  "vc4_load_tracker_atomic_check state =
     (case load_tracker_get_state state of
        (ERR_PTR e, s1) \<Rightarrow> (Error e, s1)
      | (NULL, s1) \<Rightarrow> (Undefined, s1)
      | (VALID, s1) \<Rightarrow>
          (case load_priv s1 of
             None \<Rightarrow> (Undefined, s1)
           | Some load_state \<Rightarrow>
               let load_state' = load_tracker_loop load_state (planes s1);
                   s2 = s1\<lparr>load_priv := Some load_state'\<rparr>
               in if \<not> load_tracker_enabled (dev s2) then (Success, s2)
                  else if membus_load load_state' > SZ_1G + SZ_512M then (Error ENOSPC, s2)
                  else if hvs_load load_state' > 240000000 then (Error ENOSPC, s2)
                  else (Success, s2)))"

section \<open>Core clock rate\<close>

definition core_clock_crtc :: "'l::len vc4_hvs_state \<Rightarrow> 'l crtc_slot \<Rightarrow> 'l vc4_hvs_state" where
  "core_clock_crtc hvs_new_state c =
     (let h1 =
            (if active (old_crtc_state c)
             then hvs_new_state
                    \<lparr>num_outputs := num_outputs hvs_new_state - 1,
                     fifo_load := fifo_load hvs_new_state - crtc_hvs_load (old_crtc_state c)\<rparr>
             else hvs_new_state)
      in if active (new_crtc_state c)
         then h1\<lparr>num_outputs := num_outputs h1 + 1,
                 fifo_load := fifo_load h1 + crtc_hvs_load (new_crtc_state c)\<rparr>
         else h1)"

fun core_clock_loop :: "'l::len vc4_hvs_state \<Rightarrow> 'l crtc_slot option list \<Rightarrow> 'l vc4_hvs_state" where
  "core_clock_loop h [] = h"
| "core_clock_loop h (None # cs) = core_clock_loop h cs"
| "core_clock_loop h (Some c # cs) = core_clock_loop (core_clock_crtc h c) cs"

text \<open>
  \<^verbatim>\<open>vc4_core_clock_atomic_check\<close>. \<^verbatim>\<open>pixel_rate\<close> is an \<^verbatim>\<open>unsigned long\<close>: the
  \<^verbatim>\<open>u64\<close> load is truncated to it, and the product with 40 or 60 wraps at its width.
  After the loop \<^verbatim>\<open>hvs_new_state->fifo_load\<close> is read whatever the CRTCs are, so an error
  pointer is always dereferenced.
\<close>

definition vc4_core_clock_atomic_check ::
  "'l::len drm_atomic_state \<Rightarrow> outcome \<times> 'l drm_atomic_state" where
  "vc4_core_clock_atomic_check state =
     (case load_tracker_get_state state of
        (ERR_PTR e, s1) \<Rightarrow> (Error e, s1)
      | (NULL, s1) \<Rightarrow> (Undefined, s1)
      | (VALID, s1) \<Rightarrow>
          (case vc4_hvs_get_global_state s1 of
             (NULL, s2) \<Rightarrow> (Error EINVAL, s2)
           | (ERR_PTR e, s2) \<Rightarrow> (Undefined, s2)
           | (VALID, s2) \<Rightarrow>
               (case (load_priv s2, hvs_priv s2) of
                  (Some load_state, Some hvs_new_state) \<Rightarrow>
                    let h' = core_clock_loop hvs_new_state (crtcs s2);
                        cob_rate = fifo_load h';
                        pixel_rate = (ucast (hvs_load load_state) :: 'l word);
                        pixel_rate' =
                          (if num_outputs h' > 1 then (pixel_rate * 40) div 100
                           else (pixel_rate * 60) div 100)
                    in (Success, s2\<lparr>hvs_priv := Some (h'\<lparr>core_clock_rate := max cob_rate pixel_rate'\<rparr>)\<rparr>)
                | _ \<Rightarrow> (Undefined, s2))))"

section \<open>The validation pipeline\<close>

text \<open>
  \<^verbatim>\<open>vc4_atomic_check\<close>. \<^verbatim>\<open>drm_atomic_helper_check\<close> belongs to the framework and is the
  parameter \<open>helper_check\<close>. The result of the colour-matrix check is tested with
  \<^verbatim>\<open>ret < 0\<close>, the others with \<^verbatim>\<open>ret\<close>; the checks return 0 or a negative errno, so
  both tests single out \<open>Success\<close>.
\<close>

definition vc4_atomic_check ::
  "('l::len drm_atomic_state \<Rightarrow> outcome \<times> 'l drm_atomic_state)
    \<Rightarrow> 'l drm_atomic_state \<Rightarrow> (outcome \<times> 'l drm_atomic_state) option" where
  "vc4_atomic_check helper_check state =
     (case vc4_pv_muxing_atomic_check state of
        (Success, s1) \<Rightarrow>
          (case vc4_ctm_atomic_check s1 of
             None \<Rightarrow> None
           | Some (Success, s2) \<Rightarrow>
               (case helper_check s2 of
                  (Success, s3) \<Rightarrow>
                    (case vc4_load_tracker_atomic_check s3 of
                       (Success, s4) \<Rightarrow> Some (vc4_core_clock_atomic_check s4)
                     | (ret, s4) \<Rightarrow> Some (ret, s4))
                | (ret, s3) \<Rightarrow> Some (ret, s3))
           | Some (ret, s2) \<Rightarrow> Some (ret, s2))
      | (ret, s1) \<Rightarrow> (Some (ret, s1)))"

section \<open>The device across transactions\<close>

text \<open>
  \<^verbatim>\<open>vc4_hvs_channels_obj_init\<close>: the first published channel-pool state is a zeroed object
  whose \<^verbatim>\<open>unassigned_channels\<close> is \<^verbatim>\<open>GENMASK(HVS_NUM_CHANNELS - 1, 0)\<close>.
\<close>

definition vc4_hvs_channels_obj_init :: "'l::len vc4_hvs_state" where
  "vc4_hvs_channels_obj_init =
     \<lparr>unassigned_channels = GENMASK (HVS_NUM_CHANNELS - 1) 0,
      num_outputs = 0, fifo_load = 0, core_clock_rate = 0\<rparr>"

text \<open>
  Modelled from the spec: the life cycle of a transaction, which the framework and the
  CRTC code own (\<^verbatim>\<open>drm_atomic_get_crtc_state\<close> with the CRTC's duplicate hook, and
  \<^verbatim>\<open>drm_atomic_helper_swap_state\<close>, are not among the repository's files). The spec has:
  a transaction obtains a private mutable copy, mutates it, and either publishes it
  (commit) or discards it (abort); a per-output transaction state is created when an
  output's configuration changes in a transaction; outputs that are enabled and unchanged
  keep their existing channel; at the point of no return the private versions are
  published as the new current versions; initially all channels are free and no output
  has a channel.

  A CRTC of the device is its fixed channel mask and its current state. The entry of a
  CRTC in a transaction has the current state as the old state and, as the new state, what
  the client asks for, with the channel carried over from the current state.
\<close>

record (overloaded) 'l vc4_crtc =
  crtc_channels :: u32
  crtc_state :: "'l vc4_crtc_state"

record (overloaded) 'l kms_device =
  kms_dev :: "'l vc4_dev"
  kms_crtcs :: "'l vc4_crtc list"

definition crtc_entry :: "'l::len vc4_crtc \<Rightarrow> 'l vc4_crtc_state option \<Rightarrow> 'l crtc_slot option" where
  "crtc_entry cr req =
     map_option
       (\<lambda>n. \<lparr>hvs_available_channels = crtc_channels cr,
             old_crtc_state = crtc_state cr,
             new_crtc_state =
               n\<lparr>assigned_channel := assigned_channel (crtc_state cr), update_muxing := False\<rparr>\<rparr>)
       req"

definition begin_transaction ::
  "'l::len kms_device \<Rightarrow> 'l vc4_crtc_state option list \<Rightarrow> plane_slot option list
    \<Rightarrow> errno option \<Rightarrow> errno option \<Rightarrow> errno option \<Rightarrow> 'l drm_atomic_state" where
  "begin_transaction k reqs pl e_ctm e_load e_hvs =
     \<lparr>dev = kms_dev k,
      crtcs = map (\<lambda>(cr, req). crtc_entry cr req) (zip (kms_crtcs k) reqs),
      planes = pl,
      ctm_priv = None, load_priv = None, hvs_priv = None,
      ctm_obtain = e_ctm, load_obtain = e_load, hvs_obtain = e_hvs\<rparr>"

definition publish_crtc :: "'l::len vc4_crtc \<Rightarrow> 'l crtc_slot option \<Rightarrow> 'l vc4_crtc" where
  "publish_crtc cr e = (case e of None \<Rightarrow> cr | Some c \<Rightarrow> cr\<lparr>crtc_state := new_crtc_state c\<rparr>)"

definition swap_state :: "'l::len kms_device \<Rightarrow> 'l drm_atomic_state \<Rightarrow> 'l kms_device" where
  "swap_state k s =
     \<lparr>kms_dev = (kms_dev k)
        \<lparr>ctm_manager := (case ctm_priv s of Some st \<Rightarrow> st | None \<Rightarrow> ctm_manager (kms_dev k)),
         load_tracker := (case load_priv s of Some st \<Rightarrow> st | None \<Rightarrow> load_tracker (kms_dev k)),
         hvs_channels := (case hvs_priv s of Some st \<Rightarrow> st | None \<Rightarrow> hvs_channels (kms_dev k))\<rparr>,
      kms_crtcs = map (\<lambda>(cr, e). publish_crtc cr e) (zip (kms_crtcs k) (crtcs s))\<rparr>"

definition initial_device :: "'l::len kms_device \<Rightarrow> bool" where
  "initial_device k =
     (hvs_channels (kms_dev k) = vc4_hvs_channels_obj_init
      \<and> list_all (\<lambda>cr. \<not> enable (crtc_state cr)
                       \<and> assigned_channel (crtc_state cr) = VC4_HVS_CHANNEL_DISABLED)
           (kms_crtcs k))"

text \<open>
  What is asked of the framework's \<^verbatim>\<open>drm_atomic_helper_check\<close>: it leaves alone the
  device, the channel and the enable flag of every CRTC state of the transaction, and the
  free channels of the private channel pool.
\<close>

definition slot_channel :: "'l::len crtc_slot \<Rightarrow> bool \<times> u32" where
  "slot_channel c = (enable (new_crtc_state c), assigned_channel (new_crtc_state c))"

definition helper_frame :: "('l::len drm_atomic_state \<Rightarrow> outcome \<times> 'l drm_atomic_state) \<Rightarrow> bool" where
  "helper_frame h =
     (\<forall>s. dev (snd (h s)) = dev s
          \<and> map (map_option slot_channel) (crtcs (snd (h s))) = map (map_option slot_channel) (crtcs s)
          \<and> map_option unassigned_channels (hvs_priv (snd (h s)))
              = map_option unassigned_channels (hvs_priv s))"

text \<open>
  The states of the device: an initial one, or the one an accepted transaction leaves
  when it is published.
\<close>

inductive reachable :: "'l::len kms_device \<Rightarrow> bool" where
  start: "initial_device k \<Longrightarrow> reachable k"
| commit:
    "reachable k \<Longrightarrow> length reqs = length (kms_crtcs k) \<Longrightarrow> helper_frame h \<Longrightarrow>
     vc4_atomic_check h (begin_transaction k reqs pl e_ctm e_load e_hvs) = Some (Success, s') \<Longrightarrow>
     reachable (swap_state k s')"

text \<open>
  The free channels of the published pool, and the channels of the enabled CRTCs
  (a CRTC whose channel is \<^verbatim>\<open>VC4_HVS_CHANNEL_DISABLED\<close> has none).
\<close>

definition free_channels :: "'l::len kms_device \<Rightarrow> nat set" where
  "free_channels k = {n. bit (unassigned_channels (hvs_channels (kms_dev k))) n}"

definition has_channel :: "'l::len vc4_crtc \<Rightarrow> bool" where
  "has_channel cr =
     (enable (crtc_state cr) \<and> assigned_channel (crtc_state cr) \<noteq> VC4_HVS_CHANNEL_DISABLED)"

definition assigned_channels :: "'l::len kms_device \<Rightarrow> nat list" where
  "assigned_channels k =
     map (\<lambda>cr. unat (assigned_channel (crtc_state cr))) (filter has_channel (kms_crtcs k))"

section \<open>Vocabulary for the statements\<close>

text \<open>
  What a CRTC entry asks of the colour-matrix check, in the terms of its two loops:
  nothing (the entry is empty, or \<^verbatim>\<open>new->ctm == old->ctm\<close>), or the release of the
  matrix (\<^verbatim>\<open>!new->ctm && old->ctm\<close>).
\<close>

definition ctm_untouched :: "'l::len crtc_slot option \<Rightarrow> bool" where
  "ctm_untouched e =
     (case e of None \<Rightarrow> True | Some c \<Rightarrow> ctm (new_crtc_state c) = ctm (old_crtc_state c))"

definition ctm_released :: "'l::len crtc_slot option \<Rightarrow> bool" where
  "ctm_released e =
     (case e of
        None \<Rightarrow> False
      | Some c \<Rightarrow> ctm (new_crtc_state c) = None \<and> ctm (old_crtc_state c) \<noteq> None)"

text \<open>
  The colour-matrix state a transaction works on once it has obtained it: its private
  copy, which is a duplicate of the published state when the transaction had none; and
  whether it can be obtained.
\<close>

definition ctm_seen :: "'l::len drm_atomic_state \<Rightarrow> vc4_ctm_state" where
  "ctm_seen s =
     (case ctm_priv s of
        Some st \<Rightarrow> st
      | None \<Rightarrow> vc4_ctm_duplicate_state (ctm_manager (dev s)))"

definition ctm_obtainable :: "'l::len drm_atomic_state \<Rightarrow> bool" where
  "ctm_obtainable s = (case ctm_priv s of Some _ \<Rightarrow> True | None \<Rightarrow> ctm_obtain s = None)"

text \<open>The entries of a transaction's array that are set, in the order of the array.\<close>

fun entries :: "'a option list \<Rightarrow> 'a list" where
  "entries [] = []"
| "entries (None # es) = entries es"
| "entries (Some e # es) = e # entries es"

text \<open>
  A plane state is active when it has both a framebuffer and a CRTC; likewise whether the
  load tracker's and the channel pool's state can be obtained, and the state the
  transaction then works on.
\<close>

definition plane_active :: "vc4_plane_state \<Rightarrow> bool" where
  "plane_active ps = (fb ps \<and> crtc ps)"

definition load_seen :: "'l::len drm_atomic_state \<Rightarrow> vc4_load_tracker_state" where
  "load_seen s =
     (case load_priv s of
        Some st \<Rightarrow> st
      | None \<Rightarrow> vc4_load_tracker_duplicate_state (load_tracker (dev s)))"

definition load_obtainable :: "'l::len drm_atomic_state \<Rightarrow> bool" where
  "load_obtainable s = (case load_priv s of Some _ \<Rightarrow> True | None \<Rightarrow> load_obtain s = None)"

definition hvs_seen :: "'l::len drm_atomic_state \<Rightarrow> 'l vc4_hvs_state" where
  "hvs_seen s =
     (case hvs_priv s of
        Some st \<Rightarrow> st
      | None \<Rightarrow> vc4_hvs_channels_duplicate_state (hvs_channels (dev s)))"

definition hvs_obtainable :: "'l::len drm_atomic_state \<Rightarrow> bool" where
  "hvs_obtainable s = (case hvs_priv s of Some _ \<Rightarrow> True | None \<Rightarrow> hvs_obtain s = None)"

text \<open>
  For the proof of the pool's invariant: the enable flag and channel of each CRTC as a
  list, the channels of the enabled ones, and the invariant that relates them to the free
  mask: no channel twice, each below \<^verbatim>\<open>HVS_NUM_CHANNELS\<close>, and a channel free exactly
  when no enabled CRTC has it.
\<close>

definition view_channels :: "(bool \<times> u32) list \<Rightarrow> nat list" where
  "view_channels vs = map (\<lambda>v. unat (snd v)) (filter fst vs)"

definition pool_ok :: "u32 \<Rightarrow> (bool \<times> u32) list \<Rightarrow> bool" where
  "pool_ok u vs =
     (distinct (view_channels vs)
      \<and> list_all (\<lambda>n. n < HVS_NUM_CHANNELS) (view_channels vs)
      \<and> (\<forall>n. bit u n = (n < HVS_NUM_CHANNELS \<and> n \<notin> set (view_channels vs))))"

definition merge_view :: "bool \<times> u32 \<Rightarrow> 'l::len crtc_slot option \<Rightarrow> bool \<times> u32" where
  "merge_view v e = (case e of None \<Rightarrow> v | Some c \<Rightarrow> slot_channel c)"

definition entry_of_view :: "bool \<times> u32 \<Rightarrow> 'l::len crtc_slot option \<Rightarrow> bool" where
  "entry_of_view v e =
     (case e of
        None \<Rightarrow> True
      | Some c \<Rightarrow>
          v = (enable (old_crtc_state c), assigned_channel (old_crtc_state c))
          \<and> assigned_channel (new_crtc_state c) = assigned_channel (old_crtc_state c))"

definition crtc_view :: "'l::len vc4_crtc \<Rightarrow> bool \<times> u32" where
  "crtc_view cr = (enable (crtc_state cr), assigned_channel (crtc_state cr))"

definition device_ok :: "'l::len kms_device \<Rightarrow> bool" where
  "device_ok k =
     (if firmware_kms (kms_dev k)
      then (\<forall>n. bit (unassigned_channels (hvs_channels (kms_dev k))) n = (n < HVS_NUM_CHANNELS))
           \<and> list_all (\<lambda>cr. assigned_channel (crtc_state cr) = VC4_HVS_CHANNEL_DISABLED) (kms_crtcs k)
      else pool_ok (unassigned_channels (hvs_channels (kms_dev k))) (map crtc_view (kms_crtcs k)))"


section \<open>The commit path\<close>

text \<open>
  \<^verbatim>\<open>vc4_atomic_commit\<close> and \<^verbatim>\<open>vc4_atomic_complete_commit\<close> are sequences of calls into the
  DRM core, the clock framework and the HVS, around the semaphore \<^verbatim>\<open>async_modeset\<close>. The
  model records the calls, in the order in which the code makes them. \<open>Down_interruptible\<close>
  is a \<^verbatim>\<open>down_interruptible\<close> that returned 0 and so holds the permit, \<open>Down_interrupted\<close>
  one that returned an error; the flag of \<open>Wait_for_fences\<close> is the \<^verbatim>\<open>pre_swap\<close> argument;
  \<open>Clk_request_start\<close> carries the rate asked for; \<open>Clk_request_done_previous\<close> ends the
  request kept in \<^verbatim>\<open>hvs->core_req\<close> and \<open>Clk_request_done_temporary\<close> the local one.
\<close>

datatype event =
    Setup_commit
  | Down_interruptible
  | Down_interrupted
  | Up
  | Prepare_planes
  | Wait_for_fences bool
  | Async_commit
  | Cleanup_planes
  | Swap_state
  | State_get
  | Queue_work
  | Mask_underrun u32
  | Clk_request_start nat
  | Clk_request_done_previous
  | Clk_request_done_temporary
  | Wait_for_dependencies
  | Commit_modeset_disables
  | Ctm_commit
  | Pv_muxing_commit
  | Commit_planes
  | Commit_modeset_enables
  | Fake_vblank
  | Commit_hw_done
  | Wait_for_flip_done
  | Commit_cleanup_done
  | State_put

text \<open>
  What the commit reads besides the transaction: the \<^verbatim>\<open>async_update\<close> flag of the
  transaction, whether the HVS is there and is an HVS5, which CRTC entries have their
  \<^verbatim>\<open>commit\<close> pointer set, and what the four calls that can fail return (\<open>None\<close> for 0).
\<close>

record commit_env =
  async_update :: bool
  hvs5 :: bool
  has_commit :: "nat \<Rightarrow> bool"
  setup_commit_ret :: "errno option"
  down_ret :: "errno option"
  prepare_planes_ret :: "errno option"
  wait_for_fences_ret :: "errno option"

text \<open>
  The first loop of \<^verbatim>\<open>vc4_atomic_complete_commit\<close>: underrun reporting is masked on the
  channel of every CRTC of the transaction that has a commit, unless the firmware drives
  the display.
\<close>

definition mask_underrun_loop :: "commit_env \<Rightarrow> 'l::len drm_atomic_state \<Rightarrow> event list" where
  "mask_underrun_loop env state =
     concat (map (\<lambda>(i, slot). case slot of
                    None \<Rightarrow> []
                  | Some c \<Rightarrow>
                      if \<not> has_commit env i \<or> firmware_kms (dev state) then []
                      else [Mask_underrun (assigned_channel (new_crtc_state c))])
               (enumerate 0 (crtcs state)))"

text \<open>
  \<^verbatim>\<open>vc4_atomic_complete_commit\<close>. It returns at once, without releasing the semaphore,
  when the transaction holds no HVS state (the \<^verbatim>\<open>WARN_ON\<close>); otherwise the last call
  is \<^verbatim>\<open>up\<close>.
\<close>

definition vc4_atomic_complete_commit :: "commit_env \<Rightarrow> 'l::len drm_atomic_state \<Rightarrow> event list" where
  "vc4_atomic_complete_commit env state =
     (case hvs_priv state of
        None \<Rightarrow> []
      | Some hvs_state \<Rightarrow>
          mask_underrun_loop env state
          @ (if hvs5 env
             then [Clk_request_start (unat (max 500000000 (core_clock_rate hvs_state))),
                   Clk_request_done_previous]
             else [])
          @ [Wait_for_fences False, Wait_for_dependencies, Commit_modeset_disables, Ctm_commit]
          @ (if \<not> firmware_kms (dev state) then [Pv_muxing_commit] else [])
          @ [Commit_planes, Commit_modeset_enables, Fake_vblank, Commit_hw_done,
             Wait_for_flip_done, Cleanup_planes, Commit_cleanup_done]
          @ (if hvs5 env
             then [Clk_request_start (unat (core_clock_rate hvs_state)),
                   Clk_request_done_temporary]
             else [])
          @ [State_put, Up])"

text \<open>
  \<^verbatim>\<open>vc4_atomic_commit\<close>: the value returned and the calls made, those of the queued work
  (\<^verbatim>\<open>commit_work\<close>, which runs \<^verbatim>\<open>vc4_atomic_complete_commit\<close>) following \<open>Queue_work\<close>
  on the non-blocking path.
\<close>

definition vc4_atomic_commit ::
  "commit_env \<Rightarrow> 'l::len drm_atomic_state \<Rightarrow> bool \<Rightarrow> outcome \<times> event list" where
  "vc4_atomic_commit env state nonblock =
     (if async_update env then
        (case down_ret env of
           Some e \<Rightarrow> (Error e, [Down_interrupted])
         | None \<Rightarrow>
            (case prepare_planes_ret env of
               Some e \<Rightarrow> (Error e, [Down_interruptible, Prepare_planes, Up])
             | None \<Rightarrow>
                 (Success, [Down_interruptible, Prepare_planes, Async_commit, Cleanup_planes, Up])))
      else
        (case setup_commit_ret env of
           Some e \<Rightarrow> (Error e, [Setup_commit])
         | None \<Rightarrow>
            (case down_ret env of
               Some e \<Rightarrow> (Error e, [Setup_commit, Down_interrupted])
             | None \<Rightarrow>
                (case prepare_planes_ret env of
                   Some e \<Rightarrow> (Error e, [Setup_commit, Down_interruptible, Prepare_planes, Up])
                 | None \<Rightarrow>
                    (case (if nonblock then None else wait_for_fences_ret env) of
                       Some e \<Rightarrow>
                         (Error e, [Setup_commit, Down_interruptible, Prepare_planes,
                                    Wait_for_fences True, Cleanup_planes, Up])
                     | None \<Rightarrow>
                         (Success,
                          [Setup_commit, Down_interruptible, Prepare_planes]
                          @ (if nonblock then [] else [Wait_for_fences True])
                          @ [Swap_state, State_get]
                          @ (if nonblock then [Queue_work] else [])
                          @ vc4_atomic_complete_commit env state))))))"

text \<open>
  The steps of hardware application, as the specification counts them from 1 to 14: the
  calls of \<^verbatim>\<open>vc4_atomic_complete_commit\<close> before \<^verbatim>\<open>drm_atomic_state_put\<close>.
\<close>

fun hardware_step :: "event \<Rightarrow> bool" where
  "hardware_step (Mask_underrun ch) = True"
| "hardware_step (Clk_request_start rate) = True"
| "hardware_step Clk_request_done_previous = True"
| "hardware_step Clk_request_done_temporary = True"
| "hardware_step (Wait_for_fences pre_swap) = (\<not> pre_swap)"
| "hardware_step Wait_for_dependencies = True"
| "hardware_step Commit_modeset_disables = True"
| "hardware_step Ctm_commit = True"
| "hardware_step Pv_muxing_commit = True"
| "hardware_step Commit_planes = True"
| "hardware_step Commit_modeset_enables = True"
| "hardware_step Fake_vblank = True"
| "hardware_step Commit_hw_done = True"
| "hardware_step Wait_for_flip_done = True"
| "hardware_step Cleanup_planes = True"
| "hardware_step Commit_cleanup_done = True"
| "hardware_step e = False"

text \<open>
  Modelled from the spec: the semaphore (\<^verbatim>\<open>sema_init\<close>, \<^verbatim>\<open>down_interruptible\<close>, \<^verbatim>\<open>up\<close>)
  and the scheduling of the calling threads and the work queue are not in this file. The
  commit gate is a single-permit semaphore: \<^verbatim>\<open>vc4_kms_load\<close> initialises its count to 1,
  a \<^verbatim>\<open>down_interruptible\<close> returns 0 only when it found the count positive, and has then
  decremented it; \<^verbatim>\<open>up\<close> increments the count; no other call touches it.
\<close>

definition async_modeset_init :: nat where
  "async_modeset_init = 1"

fun sem_after :: "nat \<Rightarrow> event \<Rightarrow> nat option" where
  "sem_after n Down_interruptible = (if 0 < n then Some (n - 1) else None)"
| "sem_after n Up = Some (Suc n)"
| "sem_after n e = Some n"

text \<open>
  Modelled from the spec: commits submitted concurrently. Each has the calls it has made
  so far and the calls it has still to make; a step of the system is the next call of
  one of them, possible when the semaphore lets the call return. The system starts with
  the semaphore as \<^verbatim>\<open>vc4_kms_load\<close> leaves it and no call made.
\<close>

type_synonym commit_thread = "event list \<times> event list"

inductive gate_step :: "nat \<times> commit_thread list \<Rightarrow> nat \<times> commit_thread list \<Rightarrow> bool" where
  call: "i < length ths \<Longrightarrow> ths ! i = (d, e # r) \<Longrightarrow> sem_after n e = Some n'
         \<Longrightarrow> gate_step (n, ths) (n', ths[i := (d @ [e], r)])"

definition concurrent_commits :: "event list list \<Rightarrow> nat \<times> commit_thread list \<Rightarrow> bool" where
  "concurrent_commits ts = rtranclp gate_step (async_modeset_init, map (\<lambda>t. ([], t)) ts)"

text \<open>
  A commit is in its hardware application phase when it has made one of the calls of
  that phase and has another one still to make.
\<close>

definition in_hardware_phase :: "commit_thread \<Rightarrow> bool" where
  "in_hardware_phase th = (list_ex hardware_step (fst th) \<and> list_ex hardware_step (snd th))"

text \<open>
  The discipline of one commit towards the gate, used in the proofs: before it holds the
  permit it makes no call of the hardware phase and does not release; while it holds the
  permit it does not acquire again; once it has released it does neither and makes no
  call of the hardware phase.
\<close>

datatype gate_phase = Before | Holding | After

fun gate_phase_after :: "gate_phase \<Rightarrow> event \<Rightarrow> gate_phase option" where
  "gate_phase_after Before Down_interruptible = Some Holding"
| "gate_phase_after Before Up = None"
| "gate_phase_after Before e = (if hardware_step e then None else Some Before)"
| "gate_phase_after Holding Down_interruptible = None"
| "gate_phase_after Holding Up = Some After"
| "gate_phase_after Holding e = Some Holding"
| "gate_phase_after After Down_interruptible = None"
| "gate_phase_after After Up = None"
| "gate_phase_after After e = (if hardware_step e then None else Some After)"

fun follows_gate :: "gate_phase \<Rightarrow> event list \<Rightarrow> bool" where
  "follows_gate p [] = True"
| "follows_gate p (e # r) =
     (case gate_phase_after p e of None \<Rightarrow> False | Some q \<Rightarrow> follows_gate q r)"

text \<open>
  What the proof of mutual exclusion maintains: each commit follows the discipline from
  the phase it is in, it has made no call of the hardware phase while it is still before
  its acquisition, and the count of the semaphore plus the number of commits holding the
  permit is 1.
\<close>

definition thread_ok :: "gate_phase \<Rightarrow> commit_thread \<Rightarrow> bool" where
  "thread_ok p th = (follows_gate p (snd th) \<and> (p = Before \<longrightarrow> \<not> list_ex hardware_step (fst th)))"

definition gate_inv :: "nat \<times> commit_thread list \<Rightarrow> bool" where
  "gate_inv c =
     (\<exists>ps. list_all2 thread_ok ps (snd c) \<and> fst c + count_list ps Holding = 1)"


section \<open>Example inputs\<close>

text \<open>
  Concrete inputs, on a 64-bit build, at which the theorems below are instantiated: a
  device as the init functions leave it (all channels free, no matrix owner, no load), a
  CRTC state that is off and has no channel, one that is on with a given channel, a blob
  holding the identity matrix (1.0, that is \<open>2 ^ 32\<close>, on the diagonal), and a fresh
  transaction on a device, with no private copy yet and every object obtainable.
\<close>

definition example_dev :: "64 vc4_dev" where
  "example_dev =
     \<lparr>firmware_kms = False, load_tracker_enabled = True,
      ctm_manager = \<lparr>ctm_ptr = None, fifo = 0\<rparr>,
      load_tracker = \<lparr>hvs_load = 0, membus_load = 0\<rparr>,
      hvs_channels = vc4_hvs_channels_obj_init\<rparr>"

definition example_off :: "64 vc4_crtc_state" where
  "example_off =
     \<lparr>enable = False, active = False, ctm = None,
      assigned_channel = VC4_HVS_CHANNEL_DISABLED, update_muxing = False, crtc_hvs_load = 0\<rparr>"

definition example_on :: "u32 \<Rightarrow> 64 vc4_crtc_state" where
  "example_on ch =
     \<lparr>enable = True, active = True, ctm = None,
      assigned_channel = ch, update_muxing = False, crtc_hvs_load = 1000\<rparr>"

definition example_blob :: drm_property_blob where
  "example_blob = \<lparr>base_id = 1, data = [2 ^ 32, 0, 0, 0, 2 ^ 32, 0, 0, 0, 2 ^ 32]\<rparr>"

definition example_transaction ::
  "64 vc4_dev \<Rightarrow> 64 crtc_slot option list \<Rightarrow> plane_slot option list \<Rightarrow> 64 drm_atomic_state" where
  "example_transaction d cs ps =
     \<lparr>dev = d, crtcs = cs, planes = ps,
      ctm_priv = None, load_priv = None, hvs_priv = None,
      ctm_obtain = None, load_obtain = None, hvs_obtain = None\<rparr>"

text \<open>
  The entries used below: a CRTC with the given channel that asks for the identity
  matrix, and one that gives its matrix up.
\<close>

definition example_claim :: "u32 \<Rightarrow> 64 crtc_slot" where
  "example_claim ch =
     \<lparr>hvs_available_channels = 7,
      old_crtc_state = example_on ch,
      new_crtc_state = (example_on ch)\<lparr>ctm := Some example_blob\<rparr>\<rparr>"

definition example_release :: "u32 \<Rightarrow> 64 crtc_slot" where
  "example_release ch =
     \<lparr>hvs_available_channels = 7,
      old_crtc_state = (example_on ch)\<lparr>ctm := Some example_blob\<rparr>,
      new_crtc_state = example_on ch\<rparr>"

definition example_enable :: "u32 \<Rightarrow> 64 crtc_slot" where
  "example_enable allowed =
     \<lparr>hvs_available_channels = allowed,
      old_crtc_state = example_off,
      new_crtc_state = example_off\<lparr>enable := True, active := True\<rparr>\<rparr>"


text \<open>
  A commit on the full path, of a transaction on a device with an HVS4, in which every
  call succeeds.
\<close>

definition example_env :: commit_env where
  "example_env =
     \<lparr>async_update = False, hvs5 = False, has_commit = (\<lambda>i. True),
      setup_commit_ret = None, down_ret = None, prepare_planes_ret = None,
      wait_for_fences_ret = None\<rparr>"

text \<open>
  A build whose \<^verbatim>\<open>unsigned long\<close> has 32 bits: a device as the init functions leave it, and
  a transaction that turns on one CRTC and gives it a plane whose HVS load is 124416000,
  under the load tracker's ceiling of 240000000.
\<close>

definition example_dev32 :: "32 vc4_dev" where
  "example_dev32 =
     \<lparr>firmware_kms = False, load_tracker_enabled = True,
      ctm_manager = \<lparr>ctm_ptr = None, fifo = 0\<rparr>,
      load_tracker = \<lparr>hvs_load = 0, membus_load = 0\<rparr>,
      hvs_channels = vc4_hvs_channels_obj_init\<rparr>"

definition example_off32 :: "32 vc4_crtc_state" where
  "example_off32 =
     \<lparr>enable = False, active = False, ctm = None,
      assigned_channel = VC4_HVS_CHANNEL_DISABLED, update_muxing = False, crtc_hvs_load = 0\<rparr>"

definition example_modeset32 :: "32 drm_atomic_state" where
  "example_modeset32 =
     \<lparr>dev = example_dev32,
      crtcs = [Some \<lparr>hvs_available_channels = 7,
                     old_crtc_state = example_off32,
                     new_crtc_state = example_off32\<lparr>enable := True, active := True,
                                                    crtc_hvs_load := 1000\<rparr>\<rparr>],
      planes = [Some \<lparr>old_plane_state = \<lparr>fb = False, crtc = False,
                                         plane_membus_load = 0, plane_hvs_load = 0\<rparr>,
                      new_plane_state = \<lparr>fb = True, crtc = True,
                                         plane_membus_load = 1000000,
                                         plane_hvs_load = 124416000\<rparr>\<rparr>],
      ctm_priv = None, load_priv = None, hvs_priv = None,
      ctm_obtain = None, load_obtain = None, hvs_obtain = None\<rparr>"


section \<open>Bits and masks\<close>

lemma BIT_test: "(x AND BIT n \<noteq> 0) = bit x n" for x :: "'a::len word"
  by (simp add: BIT_def bit_iff_and_push_bit_not_eq_0)

lemma bit_BIT: "bit (BIT n :: 'a::len word) i = (i = n \<and> n < LENGTH('a))"
  by (auto simp: BIT_def bit_simps)

lemma word_nonzero_bit: "(w \<noteq> 0) = (\<exists>j. bit w j)" for w :: "'a::len word"
proof
  assume "w \<noteq> 0"
  then show "\<exists>j. bit w j" by (auto simp: bit_eq_iff)
next
  assume "\<exists>j. bit w j"
  then show "w \<noteq> 0" by auto
qed

lemma GENMASK_62_32: "(GENMASK 62 32 :: u64) = push_bit 32 (mask 31)"
  by (simp add: GENMASK_def mask_eq_exp_minus_1)

lemma GENMASK_8_0_u64: "(GENMASK 8 0 :: u64) = mask 9"
  by (simp add: GENMASK_def mask_eq_exp_minus_1)

lemma GENMASK_8_0_u16: "(GENMASK 8 0 :: u16) = mask 9"
  by (simp add: GENMASK_def mask_eq_exp_minus_1)

lemma GENMASK_channels: "bit (GENMASK (HVS_NUM_CHANNELS - 1) 0 :: u32) n = (n < HVS_NUM_CHANNELS)"
proof -
  have "(GENMASK (HVS_NUM_CHANNELS - 1) 0 :: u32) = mask 3"
    by (simp add: GENMASK_def HVS_NUM_CHANNELS_def mask_eq_exp_minus_1)
  then show ?thesis
    by (auto simp: bit_mask_iff HVS_NUM_CHANNELS_def)
qed

lemma vc4_hvs_channels_obj_init_value:
  "vc4_hvs_channels_obj_init =
     \<lparr>unassigned_channels = 7, num_outputs = 0, fifo_load = 0, core_clock_rate = 0\<rparr>"
  by (simp add: vc4_hvs_channels_obj_init_def GENMASK_def HVS_NUM_CHANNELS_def mask_eq_exp_minus_1)

lemma unat_DISABLED: "unat VC4_HVS_CHANNEL_DISABLED = 4294967295"
  by (simp add: VC4_HVS_CHANNEL_DISABLED_def unsigned_minus_1_eq_mask mask_eq_exp_minus_1)

lemma unat_word_of_nat_channel: "n < 32 \<Longrightarrow> unat (word_of_nat n :: u32) = n"
  by (simp add: unat_of_nat take_bit_nat_eq_self)

lemma ffs_nonzero:
  assumes "m \<noteq> 0"
  shows "\<exists>n<32. ffs m = Suc n \<and> bit m n \<and> (\<forall>k<n. \<not> bit m k)"
proof -
  from assms obtain j where j: "bit m j" by (auto simp: word_nonzero_bit)
  then have "j < 32" by (auto dest: bit_imp_le_length)
  with j have "find (bit m) [0..<32] \<noteq> None"
    by (auto simp: find_None_iff)
  then obtain n where n: "find (bit m) [0..<32] = Some n" by auto
  then have "n < 32 \<and> bit m n \<and> (\<forall>k<n. \<not> bit m k)"
    by (auto simp: find_Some_iff)
  with n show ?thesis by (auto simp: ffs_def)
qed

lemmas example_defs = example_dev_def example_off_def example_on_def example_blob_def
  example_transaction_def example_claim_def example_release_def example_enable_def
  vc4_hvs_channels_obj_init_def


section \<open>Conversion to the hardware format\<close>

lemma integer_bits_iff:
  "(inp AND (GENMASK 62 32 :: u64) > 0) = (\<exists>j. 32 \<le> j \<and> j \<le> 62 \<and> bit inp j)"
proof -
  have "(inp AND (GENMASK 62 32 :: u64) > 0) = (inp AND push_bit 32 (mask 31) \<noteq> 0)"
    by (simp add: GENMASK_62_32 word_greater_zero_iff)
  also have "\<dots> = (\<exists>j. bit inp j \<and> bit (push_bit 32 (mask 31) :: u64) j)"
    by (simp add: word_nonzero_bit bit_and_iff)
  also have "\<dots> = (\<exists>j. 32 \<le> j \<and> j \<le> 62 \<and> bit inp j)"
    by (rule arg_cong [where f = Ex], rule ext) (auto simp: bit_simps)
  finally show ?thesis .
qed

lemma s0_9_sign_bit: "bit (vc4_ctm_s31_32_to_s0_9 inp) 9 = bit inp 63"
  by (simp add: vc4_ctm_s31_32_to_s0_9_def Let_def GENMASK_8_0_u64 GENMASK_8_0_u16 BIT_test
      bit_BIT bit_or_iff bit_and_iff bit_mask_iff bit_ucast_iff bit_drop_bit_eq)

lemma s0_9_low_bits:
  "i < 9 \<Longrightarrow> bit (vc4_ctm_s31_32_to_s0_9 inp) i =
     (if \<exists>j. 32 \<le> j \<and> j \<le> 62 \<and> bit inp j then True else bit inp (23 + i))"
  unfolding vc4_ctm_s31_32_to_s0_9_def Let_def integer_bits_iff
  by (auto simp add: GENMASK_8_0_u64 GENMASK_8_0_u16 BIT_test
      bit_BIT bit_or_iff bit_and_iff bit_mask_iff bit_ucast_iff bit_drop_bit_eq add.commute)

lemma s0_9_high_bits: "10 \<le> i \<Longrightarrow> \<not> bit (vc4_ctm_s31_32_to_s0_9 inp) i"
  unfolding vc4_ctm_s31_32_to_s0_9_def Let_def integer_bits_iff
  by (simp add: GENMASK_8_0_u64 GENMASK_8_0_u16 BIT_test
      bit_BIT bit_or_iff bit_and_iff bit_mask_iff bit_ucast_iff bit_drop_bit_eq add.commute)

lemma s0_9_fits: "vc4_ctm_s31_32_to_s0_9 inp < 2 ^ 10"
proof -
  have "vc4_ctm_s31_32_to_s0_9 inp AND mask 10 = vc4_ctm_s31_32_to_s0_9 inp"
    by (rule bit_word_eqI)
      (use s0_9_high_bits [of _ inp] in \<open>auto simp: bit_and_iff bit_mask_iff not_le [symmetric]\<close>)
  moreover have "vc4_ctm_s31_32_to_s0_9 inp AND mask 10 < 2 ^ 10"
    by (rule and_mask_less') simp
  ultimately show ?thesis by simp
qed

text \<open>
  C6. For every 64-bit S31.32 input, the S0.9 result has bit 9 equal to the input's sign
  bit (bit 63); its 9 low bits are all ones when one of the input's integer bits
  (bits 62 to 32) is set, and are otherwise the input's bits 31 to 23 (result bit \<open>i\<close> is
  input bit \<open>23 + i\<close>); and the result fits in 10 bits.
\<close>

theorem vc4_ctm_s31_32_to_s0_9_format:
  "bit (vc4_ctm_s31_32_to_s0_9 inp) 9 = bit inp 63
   \<and> (\<forall>i<9. bit (vc4_ctm_s31_32_to_s0_9 inp) i =
         (if \<exists>j. 32 \<le> j \<and> j \<le> 62 \<and> bit inp j then True else bit inp (23 + i)))
   \<and> vc4_ctm_s31_32_to_s0_9 inp < 2 ^ 10"
  using s0_9_sign_bit [of inp] s0_9_low_bits [of _ inp] s0_9_fits [of inp] by blast

text \<open>
  At the input \<open>2 ^ 32\<close> (the encoding of 1.0) bit 32 is the only bit set, so the nine low
  bits saturate and the sign bit is clear.
\<close>

theorem vc4_ctm_s31_32_to_s0_9_format_witness:
  "bit (vc4_ctm_s31_32_to_s0_9 (2 ^ 32)) 0
   \<and> \<not> bit (vc4_ctm_s31_32_to_s0_9 (2 ^ 32)) 9
   \<and> vc4_ctm_s31_32_to_s0_9 (2 ^ 32) < 2 ^ 10"
proof -
  have bits: "bit (2 ^ 32 :: u64) n = (n = 32)" for n
    by (simp only: bit_exp_iff) auto
  have some: "\<exists>j. 32 \<le> j \<and> j \<le> 62 \<and> bit (2 ^ 32 :: u64) j"
    by (rule exI [of _ 32]) (simp only: bits, simp)
  from vc4_ctm_s31_32_to_s0_9_format [of "2 ^ 32"] some show ?thesis
    by (simp only: bits) simp
qed


section \<open>The coefficient loop\<close>

lemma ctm_coef_too_large_iff: "ctm_coef_too_large c = (2 ^ 32 < unat (take_bit 63 c))"
proof -
  have "c AND NOT (BIT 63) = take_bit 63 c"
    by (rule bit_word_eqI) (auto simp: bit_BIT bit_and_iff bit_not_iff bit_take_bit_iff)
  moreover have "(BIT 32 :: u64) = 2 ^ 32"
    by (simp add: BIT_def)
  ultimately show ?thesis
    by (simp add: ctm_coef_too_large_def word_less_nat_alt)
qed

lemma ctm_matrix_loop_iff:
  "ctm_matrix_loop m i = (\<forall>j. i \<le> j \<and> j < 9 \<longrightarrow> \<not> ctm_coef_too_large (m ! j))"
proof (induction m i rule: ctm_matrix_loop.induct)
  case (1 m i)
  show ?case
  proof (cases "i < 9")
    case False
    then show ?thesis by (subst ctm_matrix_loop.simps) auto
  next
    case True
    show ?thesis
    proof (cases "ctm_coef_too_large (m ! i)")
      case True
      with \<open>i < 9\<close> show ?thesis by (subst ctm_matrix_loop.simps) auto
    next
      case False
      have "(\<forall>j. i \<le> j \<and> j < 9 \<longrightarrow> \<not> ctm_coef_too_large (m ! j))
              = (\<forall>j. Suc i \<le> j \<and> j < 9 \<longrightarrow> \<not> ctm_coef_too_large (m ! j))"
        using False by (metis Suc_leI le_eq_less_or_eq Suc_leD)
      with 1 False \<open>i < 9\<close> show ?thesis by (subst ctm_matrix_loop.simps) simp
    qed
  qed
qed

lemma ctm_matrix_loop_bound:
  "ctm_matrix_loop m 0 = (\<forall>i<9. unat (take_bit 63 (m ! i)) \<le> 2 ^ 32)"
  by (auto simp: ctm_matrix_loop_iff ctm_coef_too_large_iff not_less)

lemma example_blob_representable: "\<forall>i<9. unat (take_bit 63 (data example_blob ! i)) \<le> 2 ^ 32"
proof -
  have "ctm_matrix_loop (data example_blob) 0"
    by (simp add: ctm_matrix_loop.simps ctm_coef_too_large_def BIT_def example_defs)
  then show ?thesis
    by (simp only: ctm_matrix_loop_bound)
qed


section \<open>Obtaining the private copies\<close>

lemma vc4_get_ctm_state_ok:
  "ctm_obtainable s \<Longrightarrow> vc4_get_ctm_state s = (VALID, s\<lparr>ctm_priv := Some (ctm_seen s)\<rparr>)"
  by (auto simp: vc4_get_ctm_state_def ctm_obtainable_def ctm_seen_def split: option.splits)

lemma vc4_get_ctm_state_fails:
  "ctm_priv s = None \<Longrightarrow> ctm_obtain s = Some e \<Longrightarrow> vc4_get_ctm_state s = (ERR_PTR e, s)"
  by (simp add: vc4_get_ctm_state_def)

lemma load_tracker_get_state_ok:
  "load_obtainable s \<Longrightarrow> load_tracker_get_state s = (VALID, s\<lparr>load_priv := Some (load_seen s)\<rparr>)"
  by (auto simp: load_tracker_get_state_def load_obtainable_def load_seen_def split: option.splits)

lemma vc4_hvs_get_global_state_ok:
  "hvs_obtainable s \<Longrightarrow> vc4_hvs_get_global_state s = (VALID, s\<lparr>hvs_priv := Some (hvs_seen s)\<rparr>)"
  by (auto simp: vc4_hvs_get_global_state_def hvs_obtainable_def hvs_seen_def split: option.splits)

lemma vc4_get_ctm_state_frame:
  "vc4_get_ctm_state s = (p, s') \<Longrightarrow>
     dev s' = dev s \<and> crtcs s' = crtcs s \<and> planes s' = planes s
     \<and> hvs_priv s' = hvs_priv s \<and> load_priv s' = load_priv s"
  by (auto simp: vc4_get_ctm_state_def split: option.splits)

lemma load_tracker_get_state_frame:
  "load_tracker_get_state s = (p, s') \<Longrightarrow>
     dev s' = dev s \<and> crtcs s' = crtcs s \<and> planes s' = planes s
     \<and> hvs_priv s' = hvs_priv s \<and> ctm_priv s' = ctm_priv s \<and> hvs_obtain s' = hvs_obtain s"
  by (auto simp: load_tracker_get_state_def split: option.splits)

lemma vc4_hvs_get_global_state_frame:
  "vc4_hvs_get_global_state s = (p, s') \<Longrightarrow>
     dev s' = dev s \<and> crtcs s' = crtcs s \<and> planes s' = planes s
     \<and> load_priv s' = load_priv s \<and> ctm_priv s' = ctm_priv s"
  by (auto simp: vc4_hvs_get_global_state_def split: option.splits)


section \<open>The colour-matrix check\<close>

lemma ctm_untouched_not_released: "ctm_untouched e \<Longrightarrow> \<not> ctm_released e"
  by (auto simp: ctm_untouched_def ctm_released_def split: option.splits)

lemma ctm_enable_loop_skip:
  assumes "\<forall>j. i \<le> j \<and> j < k \<longrightarrow>
             ctm_untouched (crtcs s ! j) \<or> (p = VALID \<and> ctm_released (crtcs s ! j))"
    and "i \<le> k" and "k \<le> length (crtcs s)"
  shows "ctm_enable_loop p s i = ctm_enable_loop p s k"
  using assms
proof (induction "k - i" arbitrary: i)
  case 0
  then show ?case by simp
next
  case (Suc n)
  then have lt: "i < k"
    and here: "ctm_untouched (crtcs s ! i) \<or> (p = VALID \<and> ctm_released (crtcs s ! i))"
    by auto
  have "ctm_enable_loop p s i = ctm_enable_loop p s (Suc i)"
    using lt here Suc.prems(3)
    by (subst ctm_enable_loop.simps)
      (auto simp: ctm_untouched_def ctm_released_def split: option.splits)
  also have "\<dots> = ctm_enable_loop p s k"
    using Suc lt by (intro Suc.hyps(1)) auto
  finally show ?case .
qed

lemma ctm_enable_loop_end: "length (crtcs s) \<le> i \<Longrightarrow> ctm_enable_loop p s i = Some (Success, s)"
  by (subst ctm_enable_loop.simps) simp

lemma ctm_enable_loop_passive:
  assumes "\<forall>j. i \<le> j \<and> j < length (crtcs s) \<longrightarrow>
             ctm_untouched (crtcs s ! j) \<or> (p = VALID \<and> ctm_released (crtcs s ! j))"
  shows "ctm_enable_loop p s i = Some (Success, s)"
proof (cases "i \<le> length (crtcs s)")
  case True
  with assms have "ctm_enable_loop p s i = ctm_enable_loop p s (length (crtcs s))"
    by (intro ctm_enable_loop_skip) auto
  then show ?thesis by (simp add: ctm_enable_loop_end)
next
  case False
  then show ?thesis by (simp add: ctm_enable_loop_end)
qed

lemma ctm_enable_loop_claim:
  fixes s :: "'l::len drm_atomic_state"
  assumes k: "k < length (crtcs s)" "k < 10" "crtcs s ! k = Some c"
    and blob: "ctm (new_crtc_state c) = Some blob" "ctm (new_crtc_state c) \<noteq> ctm (old_crtc_state c)"
    and others: "\<forall>j < length (crtcs s). j \<noteq> k \<longrightarrow>
             ctm_untouched (crtcs s ! j) \<or> (p = VALID \<and> ctm_released (crtcs s ! j))"
    and p: "p = NULL \<or> p = VALID" "p = VALID \<longrightarrow> ctm_priv s \<noteq> None" "ctm_obtainable s"
  shows "ctm_enable_loop p s 0 =
     Some (if fifo (ctm_seen s) \<noteq> 0 \<and> fifo (ctm_seen s) \<noteq> assigned_channel (new_crtc_state c) + 1
           then (Error EINVAL, s\<lparr>ctm_priv := Some (ctm_seen s)\<rparr>)
           else if \<not> ctm_matrix_loop (data blob) 0
           then (Error EINVAL, s\<lparr>ctm_priv := Some (ctm_seen s)\<rparr>)
           else (Success, s\<lparr>ctm_priv := Some ((ctm_seen s)
                   \<lparr>fifo := assigned_channel (new_crtc_state c) + 1, ctm_ptr := Some (data blob)\<rparr>)\<rparr>))"
proof -
  let ?s1 = "s\<lparr>ctm_priv := Some (ctm_seen s)\<rparr>"
  let ?s2 = "s\<lparr>ctm_priv := Some ((ctm_seen s)
                   \<lparr>fifo := assigned_channel (new_crtc_state c) + 1, ctm_ptr := Some (data blob)\<rparr>)\<rparr>"
  have got: "(if p = NULL then vc4_get_ctm_state s else (p, s)) = (VALID, ?s1)"
  proof (cases "p = NULL")
    case True
    then show ?thesis using p(3) by (simp add: vc4_get_ctm_state_ok)
  next
    case False
    with p have "p = VALID" "ctm_priv s \<noteq> None" by auto
    then show ?thesis by (auto simp: ctm_seen_def)
  qed
  have "ctm_enable_loop p s 0 = ctm_enable_loop p s k"
    using others k(1) by (intro ctm_enable_loop_skip) auto
  also have "\<dots> =
     (if fifo (ctm_seen s) \<noteq> 0 \<and> fifo (ctm_seen s) \<noteq> assigned_channel (new_crtc_state c) + 1
      then Some (Error EINVAL, ?s1)
      else if \<not> ctm_matrix_loop (data blob) 0 then Some (Error EINVAL, ?s1)
      else ctm_enable_loop VALID ?s2 10)"
    using k blob by (subst ctm_enable_loop.simps) (simp add: got Let_def)
  also have "ctm_enable_loop VALID ?s2 10 = Some (Success, ?s2)"
  proof (rule ctm_enable_loop_passive)
    show "\<forall>j. 10 \<le> j \<and> j < length (crtcs ?s2) \<longrightarrow>
             ctm_untouched (crtcs ?s2 ! j) \<or> (VALID = VALID \<and> ctm_released (crtcs ?s2 ! j))"
      using others k(2) by auto
  qed
  finally show ?thesis by simp
qed

lemma ctm_disable_loop_none:
  "\<forall>e \<in> set cs. \<not> ctm_released e \<Longrightarrow> ctm_disable_loop p s cs = (None, p, s)"
  by (induction p s cs rule: ctm_disable_loop.induct) (auto simp: ctm_released_def)

lemma ctm_disable_loop_valid:
  assumes "ctm_priv s = Some st" "fifo st = 0"
  shows "ctm_disable_loop VALID s cs = (None, VALID, s)"
  using assms
proof (induction cs)
  case Nil
  then show ?case by simp
next
  case (Cons e cs)
  from Cons.prems have same: "s\<lparr>ctm_priv := Some (st\<lparr>fifo := 0\<rparr>)\<rparr> = s"
    by simp
  from Cons show ?case
    by (cases e) (auto simp: vc4_get_ctm_state_def same)
qed

lemma ctm_disable_loop_some:
  assumes "\<exists>e \<in> set cs. ctm_released e" and "ctm_obtainable s"
  shows "ctm_disable_loop p s cs = (None, VALID, s\<lparr>ctm_priv := Some ((ctm_seen s)\<lparr>fifo := 0\<rparr>)\<rparr>)"
  using assms
proof (induction cs)
  case Nil
  then show ?case by simp
next
  case (Cons e cs)
  show ?case
  proof (cases "ctm_released e")
    case True
    then obtain c where e: "e = Some c" and rel: "ctm (new_crtc_state c) = None" "ctm (old_crtc_state c) \<noteq> None"
      by (auto simp: ctm_released_def split: option.splits)
    show ?thesis
      using rel Cons.prems(2)
      by (simp add: e vc4_get_ctm_state_ok ctm_disable_loop_valid [where st = "(ctm_seen s)\<lparr>fifo := 0\<rparr>"])
  next
    case False
    with Cons.prems have ex: "\<exists>e \<in> set cs. ctm_released e" by auto
    from False have "ctm_disable_loop p s (e # cs) = ctm_disable_loop p s cs"
      by (cases e) (auto simp: ctm_released_def)
    with Cons.IH [OF ex Cons.prems(2)] show ?thesis by simp
  qed
qed

lemma vc4_ctm_atomic_check_single:
  fixes s :: "'l::len drm_atomic_state"
  assumes k: "k < length (crtcs s)" "k < 10" "crtcs s ! k = Some c"
    and blob: "ctm (new_crtc_state c) = Some blob" "ctm (new_crtc_state c) \<noteq> ctm (old_crtc_state c)"
    and others: "\<forall>j < length (crtcs s). j \<noteq> k \<longrightarrow> ctm_untouched (crtcs s ! j)"
    and obt: "ctm_obtainable s"
  shows "vc4_ctm_atomic_check s =
     Some (if fifo (ctm_seen s) \<noteq> 0 \<and> fifo (ctm_seen s) \<noteq> assigned_channel (new_crtc_state c) + 1
           then (Error EINVAL, s\<lparr>ctm_priv := Some (ctm_seen s)\<rparr>)
           else if \<not> ctm_matrix_loop (data blob) 0
           then (Error EINVAL, s\<lparr>ctm_priv := Some (ctm_seen s)\<rparr>)
           else (Success, s\<lparr>ctm_priv := Some ((ctm_seen s)
                   \<lparr>fifo := assigned_channel (new_crtc_state c) + 1, ctm_ptr := Some (data blob)\<rparr>)\<rparr>))"
proof -
  have "\<not> ctm_released e" if "e \<in> set (crtcs s)" for e
  proof -
    from that obtain j where j: "j < length (crtcs s)" "e = crtcs s ! j"
      by (auto simp: in_set_conv_nth)
    show ?thesis
    proof (cases "j = k")
      case True
      with j k blob show ?thesis by (simp add: ctm_released_def)
    next
      case False
      with j others show ?thesis by (simp add: ctm_untouched_not_released)
    qed
  qed
  then have "ctm_disable_loop NULL s (crtcs s) = (None, NULL, s)"
    by (intro ctm_disable_loop_none) blast
  moreover have "ctm_enable_loop NULL s 0 =
     Some (if fifo (ctm_seen s) \<noteq> 0 \<and> fifo (ctm_seen s) \<noteq> assigned_channel (new_crtc_state c) + 1
           then (Error EINVAL, s\<lparr>ctm_priv := Some (ctm_seen s)\<rparr>)
           else if \<not> ctm_matrix_loop (data blob) 0
           then (Error EINVAL, s\<lparr>ctm_priv := Some (ctm_seen s)\<rparr>)
           else (Success, s\<lparr>ctm_priv := Some ((ctm_seen s)
                   \<lparr>fifo := assigned_channel (new_crtc_state c) + 1, ctm_ptr := Some (data blob)\<rparr>)\<rparr>))"
    using k blob others obt by (intro ctm_enable_loop_claim) auto
  ultimately show ?thesis by (simp add: vc4_ctm_atomic_check_def)
qed

text \<open>
  C1, as the code has it. Take a transaction in which exactly one CRTC changes its colour
  matrix, to a blob whose nine coefficients are representable, every other CRTC entry
  leaving its matrix as it was, and whose colour-matrix state can be obtained. Then
  \<^verbatim>\<open>vc4_ctm_atomic_check\<close> returns, and it succeeds exactly when the unit is free
  (\<open>fifo = 0\<close>) or already owned by this CRTC's own slot; in that case the private copy's
  \<open>fifo\<close> is the CRTC's assigned channel plus one. When another slot owns the unit the
  check returns \<^verbatim>\<open>-EINVAL\<close>. The CRTC's index is below 10, which covers every position
  the coefficient loop, sharing the index variable of the CRTC loop, lets the CRTC loop
  come back from.
\<close>

theorem ctm_single_request:
  fixes s :: "'l::len drm_atomic_state"
  assumes k: "k < length (crtcs s)" "k < 10" "crtcs s ! k = Some c"
    and blob: "ctm (new_crtc_state c) = Some blob" "ctm (new_crtc_state c) \<noteq> ctm (old_crtc_state c)"
    and rep: "\<forall>i<9. unat (take_bit 63 (data blob ! i)) \<le> 2 ^ 32"
    and others: "\<forall>j < length (crtcs s). j \<noteq> k \<longrightarrow> ctm_untouched (crtcs s ! j)"
    and obt: "ctm_obtainable s"
  shows "\<exists>s'. vc4_ctm_atomic_check s =
            Some (if fifo (ctm_seen s) = 0 \<or> fifo (ctm_seen s) = assigned_channel (new_crtc_state c) + 1
                  then Success else Error EINVAL, s')
          \<and> (fifo (ctm_seen s) = 0 \<or> fifo (ctm_seen s) = assigned_channel (new_crtc_state c) + 1 \<longrightarrow>
               map_option fifo (ctm_priv s') = Some (assigned_channel (new_crtc_state c) + 1))"
proof -
  from rep have "ctm_matrix_loop (data blob) 0"
    by (simp add: ctm_matrix_loop_bound)
  with vc4_ctm_atomic_check_single [OF k blob others obt] show ?thesis
    by auto
qed

text \<open>
  The second half of C1 as it is worded fails: here one CRTC alone claims the unit with
  the identity matrix, but the published state says slot 2 owns the unit, while the
  CRTC's own slot is \<open>0 + 1\<close>; the check rejects the transaction.
\<close>

theorem ctm_single_request_counterexample:
  "map_option fst
     (vc4_ctm_atomic_check
        (example_transaction (example_dev\<lparr>ctm_manager := \<lparr>ctm_ptr = Some (data example_blob), fifo = 2\<rparr>\<rparr>)
           [Some (example_claim 0)] []))
   = Some (Error EINVAL)"
  by (simp add: vc4_ctm_atomic_check_def vc4_get_ctm_state_def vc4_ctm_duplicate_state_def
      ctm_enable_loop.simps example_defs)

text \<open>
  Two CRTCs, on channels 0 and 1, claiming the unit in one transaction. The coefficient
  loop of the first claim leaves the shared index at 9, the CRTC loop increments it to 10
  and stops, so the second claim is not examined and the check succeeds with slot 1.
\<close>

lemma ctm_second_request_not_examined:
  "map_option (\<lambda>(r, s'). (r, map_option fifo (ctm_priv s')))
     (vc4_ctm_atomic_check
        (example_transaction example_dev [Some (example_claim 0), Some (example_claim 1)] []))
   = Some (Success, Some 1)"
  by (simp add: vc4_ctm_atomic_check_def vc4_get_ctm_state_def vc4_ctm_duplicate_state_def
      ctm_enable_loop.simps ctm_matrix_loop.simps ctm_coef_too_large_def BIT_def example_defs)

text \<open>
  The theorem at a transaction whose only CRTC claims the free unit with the identity
  matrix on channel 0.
\<close>

theorem ctm_single_request_witness:
  "ctm_obtainable (example_transaction example_dev [Some (example_claim 0)] [])
   \<and> map_option (\<lambda>(r, s'). (r, map_option fifo (ctm_priv s')))
        (vc4_ctm_atomic_check (example_transaction example_dev [Some (example_claim 0)] []))
      = Some (Success, Some 1)"
proof -
  let ?s = "example_transaction example_dev [Some (example_claim 0)] []"
  have obt: "ctm_obtainable ?s"
    by (simp add: ctm_obtainable_def example_defs)
  have seen: "fifo (ctm_seen ?s) = 0"
    by (simp add: ctm_seen_def vc4_ctm_duplicate_state_def example_defs)
  have "ctm_matrix_loop (data example_blob) 0"
    by (simp add: ctm_matrix_loop.simps ctm_coef_too_large_def BIT_def example_defs)
  then have rep: "\<forall>i<9. unat (take_bit 63 (data example_blob ! i)) \<le> 2 ^ 32"
    by (simp only: ctm_matrix_loop_bound)
  from ctm_single_request [of 0 ?s "example_claim 0" example_blob, OF _ _ _ _ _ rep _ obt]
  obtain s' where "vc4_ctm_atomic_check ?s = Some (Success, s')"
    "map_option fifo (ctm_priv s') = Some (assigned_channel (new_crtc_state (example_claim 0)) + 1)"
    by (auto simp: seen) (auto simp: example_defs)
  with obt show ?thesis
    by (simp add: example_defs)
qed

text \<open>
  C5, as the code has it. A coefficient is refused by the test of the coefficient loop
  exactly when its value with bit 63 cleared is strictly greater than \<open>2 ^ 32\<close>. In a
  transaction whose colour-matrix state can be obtained and in which one CRTC alone, at an
  index below 10, changes its matrix to some blob while the unit is free or already owned
  by that CRTC's slot, the check returns \<^verbatim>\<open>-EINVAL\<close> exactly when one of the nine
  coefficients is so refused, and succeeds otherwise. The value \<open>2 ^ 32\<close>, which encodes
  1.0, is accepted and converts to \<open>0x1FF\<close>, all nine fraction bits set; the value
  \<open>2 ^ 33\<close>, which encodes 2.0, is refused.
\<close>

theorem ctm_coefficient_bound:
  fixes s :: "'l::len drm_atomic_state"
  assumes k: "k < length (crtcs s)" "k < 10" "crtcs s ! k = Some c"
    and blob: "ctm (new_crtc_state c) = Some blob" "ctm (new_crtc_state c) \<noteq> ctm (old_crtc_state c)"
    and others: "\<forall>j < length (crtcs s). j \<noteq> k \<longrightarrow> ctm_untouched (crtcs s ! j)"
    and obt: "ctm_obtainable s"
    and free: "fifo (ctm_seen s) = 0 \<or> fifo (ctm_seen s) = assigned_channel (new_crtc_state c) + 1"
  shows "(\<forall>v. ctm_coef_too_large v = (2 ^ 32 < unat (take_bit 63 v)))
       \<and> (\<exists>s'. vc4_ctm_atomic_check s =
              Some (if \<exists>i<9. 2 ^ 32 < unat (take_bit 63 (data blob ! i))
                    then Error EINVAL else Success, s'))
       \<and> \<not> ctm_coef_too_large (2 ^ 32)
       \<and> vc4_ctm_s31_32_to_s0_9 (2 ^ 32) = 0x1FF
       \<and> ctm_coef_too_large (2 ^ 33)"
proof -
  have "ctm_matrix_loop (data blob) 0 = (\<not> (\<exists>i<9. 2 ^ 32 < unat (take_bit 63 (data blob ! i))))"
    by (simp add: ctm_matrix_loop_iff ctm_coef_too_large_iff)
  with vc4_ctm_atomic_check_single [OF k blob others obt] free
  have "\<exists>s'. vc4_ctm_atomic_check s =
              Some (if \<exists>i<9. 2 ^ 32 < unat (take_bit 63 (data blob ! i))
                    then Error EINVAL else Success, s')"
    by auto
  moreover have "\<not> ctm_coef_too_large (2 ^ 32)" "ctm_coef_too_large (2 ^ 33)"
    by (simp_all add: ctm_coef_too_large_def BIT_def)
  moreover have "vc4_ctm_s31_32_to_s0_9 (2 ^ 32) = 0x1FF"
    by (simp add: vc4_ctm_s31_32_to_s0_9_def BIT_def GENMASK_def mask_eq_exp_minus_1)
  ultimately show ?thesis
    by (simp add: ctm_coef_too_large_iff)
qed

text \<open>
  C5 as it is worded has the transaction rejected only for a coefficient above the
  bound. Here the nine coefficients of the identity matrix all pass the coefficient loop,
  but the unit is owned by slot 3 while the claiming CRTC's slot is \<open>1 + 1\<close>: the check
  returns \<^verbatim>\<open>-EINVAL\<close> at the ownership test, before the coefficients are read.
\<close>

theorem ctm_coefficient_bound_counterexample:
  "ctm_matrix_loop (data example_blob) 0
   \<and> map_option fst
     (vc4_ctm_atomic_check
        (example_transaction (example_dev\<lparr>ctm_manager := \<lparr>ctm_ptr = Some (data example_blob), fifo = 3\<rparr>\<rparr>)
           [Some (example_claim 1)] []))
   = Some (Error EINVAL)"
  by (simp add: vc4_ctm_atomic_check_def vc4_get_ctm_state_def vc4_ctm_duplicate_state_def
      ctm_enable_loop.simps ctm_matrix_loop.simps ctm_coef_too_large_def BIT_def example_defs)

text \<open>
  A second CRTC claiming in the same transaction, with a matrix whose centre coefficient
  is 2.0. The first claim leaves the shared index at 9, the CRTC loop stops, and the second
  matrix is not read: the check succeeds.
\<close>

lemma ctm_second_matrix_not_read:
  "\<not> ctm_matrix_loop [0, 0, 0, 0, 2 ^ 33, 0, 0, 0, 0] 0
   \<and> map_option fst
     (vc4_ctm_atomic_check
        (example_transaction example_dev
           [Some (example_claim 0),
            Some ((example_claim 0)
              \<lparr>new_crtc_state := (example_on 0)
                 \<lparr>ctm := Some \<lparr>base_id = 2, data = [0, 0, 0, 0, 2 ^ 33, 0, 0, 0, 0]\<rparr>\<rparr>\<rparr>)] []))
   = Some Success"
  by (simp add: vc4_ctm_atomic_check_def vc4_get_ctm_state_def vc4_ctm_duplicate_state_def
      ctm_enable_loop.simps ctm_matrix_loop.simps ctm_coef_too_large_def BIT_def example_defs)

text \<open>
  The theorem at two transactions whose only CRTC claims the free unit: with the identity
  matrix, which is accepted, and with a matrix whose centre coefficient is 2.0, which is
  rejected.
\<close>

theorem ctm_coefficient_bound_witness:
  "map_option fst
     (vc4_ctm_atomic_check (example_transaction example_dev [Some (example_claim 0)] []))
     = Some Success
   \<and> map_option fst
     (vc4_ctm_atomic_check
        (example_transaction example_dev
           [Some ((example_claim 0)
              \<lparr>new_crtc_state := (example_on 0)
                 \<lparr>ctm := Some \<lparr>base_id = 2, data = [0, 0, 0, 0, 2 ^ 33, 0, 0, 0, 0]\<rparr>\<rparr>\<rparr>)] []))
     = Some (Error EINVAL)"
proof -
  let ?s = "example_transaction example_dev [Some (example_claim 0)] []"
  let ?bad = "\<lparr>base_id = 2, data = [0, 0, 0, 0, 2 ^ 33, 0, 0, 0, 0 :: u64]\<rparr>"
  let ?c = "(example_claim 0)\<lparr>new_crtc_state := (example_on 0)\<lparr>ctm := Some ?bad\<rparr>\<rparr>"
  let ?t = "example_transaction example_dev [Some ?c] []"
  have good: "\<not> (\<exists>i<9. 2 ^ 32 < unat (take_bit 63 (data example_blob ! i)))"
    using example_blob_representable by (meson not_less)
  have "\<not> ctm_matrix_loop (data ?bad) 0"
    by (simp add: ctm_matrix_loop.simps ctm_coef_too_large_def BIT_def)
  then have bad: "\<exists>i<9. 2 ^ 32 < unat (take_bit 63 (data ?bad ! i))"
    by (simp only: ctm_matrix_loop_iff ctm_coef_too_large_iff) blast
  have "map_option fst (vc4_ctm_atomic_check ?s) = Some Success"
    using ctm_coefficient_bound [of 0 ?s "example_claim 0" example_blob] good
    by (auto simp: example_defs ctm_obtainable_def ctm_seen_def vc4_ctm_duplicate_state_def)
  moreover have "map_option fst (vc4_ctm_atomic_check ?t) = Some (Error EINVAL)"
    using ctm_coefficient_bound [of 0 ?t ?c ?bad] bad
    by (auto simp: example_defs ctm_obtainable_def ctm_seen_def vc4_ctm_duplicate_state_def)
  ultimately show ?thesis by simp
qed

text \<open>
  C10, as the code has it. The check runs the loop over the CRTCs that drop their matrix
  to the end before the loop over the claims starts. Take a transaction whose
  colour-matrix state can be obtained, in which one CRTC drops its matrix, one other
  CRTC, at an index below 10, claims the unit with a representable blob, and every other
  CRTC leaves its matrix alone. Then the check succeeds and the private copy's \<open>fifo\<close> is
  the claiming CRTC's assigned channel plus one, whichever of the two CRTCs comes first.
\<close>

theorem ctm_release_then_claim:
  fixes s :: "'l::len drm_atomic_state"
  assumes d: "d < length (crtcs s)" "ctm_released (crtcs s ! d)"
    and e: "e < length (crtcs s)" "e < 10" "crtcs s ! e = Some c"
    and blob: "ctm (new_crtc_state c) = Some blob" "ctm (new_crtc_state c) \<noteq> ctm (old_crtc_state c)"
    and rep: "\<forall>i<9. unat (take_bit 63 (data blob ! i)) \<le> 2 ^ 32"
    and others: "\<forall>j < length (crtcs s). j \<noteq> d \<and> j \<noteq> e \<longrightarrow> ctm_untouched (crtcs s ! j)"
    and obt: "ctm_obtainable s"
  shows "\<exists>s'. vc4_ctm_atomic_check s = Some (Success, s')
            \<and> map_option fifo (ctm_priv s') = Some (assigned_channel (new_crtc_state c) + 1)"
proof -
  let ?s0 = "s\<lparr>ctm_priv := Some ((ctm_seen s)\<lparr>fifo := 0\<rparr>)\<rparr>"
  from d have "\<exists>x \<in> set (crtcs s). ctm_released x"
    using nth_mem by blast
  then have one: "ctm_disable_loop NULL s (crtcs s) = (None, VALID, ?s0)"
    using obt by (rule ctm_disable_loop_some)
  have seen: "ctm_seen ?s0 = (ctm_seen s)\<lparr>fifo := 0\<rparr>"
    by (simp add: ctm_seen_def)
  have ok: "ctm_matrix_loop (data blob) 0"
    using rep by (auto simp: ctm_matrix_loop_iff ctm_coef_too_large_iff not_less)
  have "ctm_enable_loop VALID ?s0 0 =
     Some (if fifo (ctm_seen ?s0) \<noteq> 0 \<and> fifo (ctm_seen ?s0) \<noteq> assigned_channel (new_crtc_state c) + 1
           then (Error EINVAL, ?s0\<lparr>ctm_priv := Some (ctm_seen ?s0)\<rparr>)
           else if \<not> ctm_matrix_loop (data blob) 0
           then (Error EINVAL, ?s0\<lparr>ctm_priv := Some (ctm_seen ?s0)\<rparr>)
           else (Success, ?s0\<lparr>ctm_priv := Some ((ctm_seen ?s0)
                   \<lparr>fifo := assigned_channel (new_crtc_state c) + 1, ctm_ptr := Some (data blob)\<rparr>)\<rparr>))"
  proof (rule ctm_enable_loop_claim [where k = e])
    show "\<forall>j<length (crtcs ?s0). j \<noteq> e \<longrightarrow>
            ctm_untouched (crtcs ?s0 ! j) \<or> VALID = VALID \<and> ctm_released (crtcs ?s0 ! j)"
      using others d by auto
  qed (use e blob in \<open>auto simp: ctm_obtainable_def\<close>)
  with one ok show ?thesis
    by (simp add: vc4_ctm_atomic_check_def seen)
qed

text \<open>
  C10 as it is worded promises acceptance for every such transaction. Here CRTC 0 drops
  the matrix it owns and CRTC 1 claims the unit, but the colour-matrix state cannot be
  obtained (the lock is contended): the check returns the error of
  \<^verbatim>\<open>vc4_get_ctm_state\<close> before either loop runs.
\<close>

theorem ctm_release_then_claim_counterexample:
  "map_option fst
     (vc4_ctm_atomic_check
        ((example_transaction (example_dev\<lparr>ctm_manager := \<lparr>ctm_ptr = Some (data example_blob), fifo = 1\<rparr>\<rparr>)
            [Some (example_release 0), Some (example_claim 1)] [])
         \<lparr>ctm_obtain := Some EDEADLK\<rparr>))
   = Some (Error EDEADLK)"
  by (simp add: vc4_ctm_atomic_check_def vc4_get_ctm_state_def example_defs)

text \<open>
  The theorem in both orders: the releasing CRTC first, and the claiming CRTC first. The
  unit is owned by slot 1 beforehand and by slot 2 in the private copy afterwards.
\<close>

theorem ctm_release_then_claim_witness:
  "map_option (\<lambda>(r, s'). (r, map_option fifo (ctm_priv s')))
     (vc4_ctm_atomic_check
        (example_transaction (example_dev\<lparr>ctm_manager := \<lparr>ctm_ptr = Some (data example_blob), fifo = 1\<rparr>\<rparr>)
            [Some (example_release 0), Some (example_claim 1)] []))
     = Some (Success, Some 2)
   \<and> map_option (\<lambda>(r, s'). (r, map_option fifo (ctm_priv s')))
     (vc4_ctm_atomic_check
        (example_transaction (example_dev\<lparr>ctm_manager := \<lparr>ctm_ptr = Some (data example_blob), fifo = 1\<rparr>\<rparr>)
            [Some (example_claim 1), Some (example_release 0)] []))
     = Some (Success, Some 2)"
proof -
  let ?d = "example_dev\<lparr>ctm_manager := \<lparr>ctm_ptr = Some (data example_blob), fifo = 1\<rparr>\<rparr>"
  let ?s = "example_transaction ?d [Some (example_release 0), Some (example_claim 1)] []"
  let ?t = "example_transaction ?d [Some (example_claim 1), Some (example_release 0)] []"
  have others_s: "\<forall>j<length (crtcs ?s). j \<noteq> 0 \<and> j \<noteq> 1 \<longrightarrow> ctm_untouched (crtcs ?s ! j)"
    by (simp add: example_defs less_Suc_eq)
  have others_t: "\<forall>j<length (crtcs ?t). j \<noteq> 1 \<and> j \<noteq> 0 \<longrightarrow> ctm_untouched (crtcs ?t ! j)"
    by (simp add: example_defs less_Suc_eq)
  from ctm_release_then_claim [of 0 ?s 1 "example_claim 1" example_blob,
      OF _ _ _ _ _ _ _ example_blob_representable others_s]
  obtain s' where "vc4_ctm_atomic_check ?s = Some (Success, s')"
    "map_option fifo (ctm_priv s') = Some (assigned_channel (new_crtc_state (example_claim 1)) + 1)"
    by (auto simp: example_defs ctm_released_def ctm_obtainable_def)
  moreover
  from ctm_release_then_claim [of 1 ?t 0 "example_claim 1" example_blob,
      OF _ _ _ _ _ _ _ example_blob_representable others_t]
  obtain t' where "vc4_ctm_atomic_check ?t = Some (Success, t')"
    "map_option fifo (ctm_priv t') = Some (assigned_channel (new_crtc_state (example_claim 1)) + 1)"
    by (auto simp: example_defs ctm_released_def ctm_obtainable_def)
  ultimately show ?thesis
    by (simp add: example_defs)
qed


section \<open>The load tracker check\<close>

lemma load_tracker_loop_sums:
  "membus_load (load_tracker_loop ls ps) =
     membus_load ls
       - sum_list (map (\<lambda>p. plane_membus_load (old_plane_state p))
                    (filter (\<lambda>p. plane_active (old_plane_state p)) (entries ps)))
       + sum_list (map (\<lambda>p. plane_membus_load (new_plane_state p))
                    (filter (\<lambda>p. plane_active (new_plane_state p)) (entries ps)))
   \<and> hvs_load (load_tracker_loop ls ps) =
     hvs_load ls
       - sum_list (map (\<lambda>p. plane_hvs_load (old_plane_state p))
                    (filter (\<lambda>p. plane_active (old_plane_state p)) (entries ps)))
       + sum_list (map (\<lambda>p. plane_hvs_load (new_plane_state p))
                    (filter (\<lambda>p. plane_active (new_plane_state p)) (entries ps)))"
  by (induction ls ps rule: load_tracker_loop.induct)
    (simp_all add: load_tracker_plane_def plane_active_def Let_def)

text \<open>
  C7, as the code has it. When the load tracker's state can be obtained, the check leaves
  in the private copy the two counters it found, minus the loads of every plane whose old
  state has a framebuffer and a CRTC, plus the loads of every plane whose new state has
  them (in 64-bit wrap-around arithmetic). With the enforcement flag off it then succeeds;
  with the flag on it returns \<^verbatim>\<open>-ENOSPC\<close> exactly when the new membus counter exceeds
  \<open>SZ_1G + SZ_512M = 1610612736\<close> or the new HVS counter exceeds 240000000, and succeeds
  otherwise.
\<close>

theorem vc4_load_tracker_atomic_check_result:
  fixes s :: "'l::len drm_atomic_state"
  assumes "load_obtainable s"
  shows "\<exists>ls'.
     vc4_load_tracker_atomic_check s =
       (if load_tracker_enabled (dev s)
           \<and> (1610612736 < unat (membus_load ls') \<or> 240000000 < unat (hvs_load ls'))
        then Error ENOSPC else Success,
        s\<lparr>load_priv := Some ls'\<rparr>)
     \<and> membus_load ls' =
         membus_load (load_seen s)
           - sum_list (map (\<lambda>p. plane_membus_load (old_plane_state p))
                        (filter (\<lambda>p. plane_active (old_plane_state p)) (entries (planes s))))
           + sum_list (map (\<lambda>p. plane_membus_load (new_plane_state p))
                        (filter (\<lambda>p. plane_active (new_plane_state p)) (entries (planes s))))
     \<and> hvs_load ls' =
         hvs_load (load_seen s)
           - sum_list (map (\<lambda>p. plane_hvs_load (old_plane_state p))
                        (filter (\<lambda>p. plane_active (old_plane_state p)) (entries (planes s))))
           + sum_list (map (\<lambda>p. plane_hvs_load (new_plane_state p))
                        (filter (\<lambda>p. plane_active (new_plane_state p)) (entries (planes s))))"
proof -
  let ?ls = "load_tracker_loop (load_seen s) (planes s)"
  have lim: "(SZ_1G + SZ_512M < membus_load ?ls) = (1610612736 < unat (membus_load ?ls))"
    "(240000000 < hvs_load ?ls) = (240000000 < unat (hvs_load ?ls))"
    by (simp_all add: SZ_1G_def SZ_512M_def word_less_nat_alt)
  have "vc4_load_tracker_atomic_check s =
       (if load_tracker_enabled (dev s)
           \<and> (1610612736 < unat (membus_load ?ls) \<or> 240000000 < unat (hvs_load ?ls))
        then Error ENOSPC else Success,
        s\<lparr>load_priv := Some ?ls\<rparr>)"
    using assms
    by (simp add: vc4_load_tracker_atomic_check_def load_tracker_get_state_ok Let_def lim)
  with load_tracker_loop_sums [of "load_seen s" "planes s"] show ?thesis
    by blast
qed

text \<open>
  C7 as it is worded has the check always succeed when the flag is off. Here the flag is
  off and the transaction is empty, but the tracker's state cannot be obtained: the check
  returns the error of \<^verbatim>\<open>drm_atomic_get_private_obj_state\<close>.
\<close>

theorem vc4_load_tracker_atomic_check_result_counterexample:
  "fst (vc4_load_tracker_atomic_check
          ((example_transaction (example_dev\<lparr>load_tracker_enabled := False\<rparr>) [] [])
           \<lparr>load_obtain := Some EDEADLK\<rparr>))
   = Error EDEADLK"
  by (simp add: vc4_load_tracker_atomic_check_def load_tracker_get_state_def example_defs)

text \<open>
  The theorem at a transaction with one plane that becomes active with a membus load of
  \<open>2 ^ 31\<close>, above the limit: rejected on a device that enforces the limits, with the
  counters updated in the private copy, and accepted on a device that does not.
\<close>

theorem vc4_load_tracker_atomic_check_result_witness:
  "load_obtainable
     (example_transaction example_dev []
        [Some \<lparr>old_plane_state = \<lparr>fb = False, crtc = False, plane_membus_load = 0, plane_hvs_load = 0\<rparr>,
               new_plane_state = \<lparr>fb = True, crtc = True, plane_membus_load = 2 ^ 31, plane_hvs_load = 1000\<rparr>\<rparr>])
   \<and> vc4_load_tracker_atomic_check
     (example_transaction example_dev []
        [Some \<lparr>old_plane_state = \<lparr>fb = False, crtc = False, plane_membus_load = 0, plane_hvs_load = 0\<rparr>,
               new_plane_state = \<lparr>fb = True, crtc = True, plane_membus_load = 2 ^ 31, plane_hvs_load = 1000\<rparr>\<rparr>])
     = (Error ENOSPC,
        (example_transaction example_dev []
        [Some \<lparr>old_plane_state = \<lparr>fb = False, crtc = False, plane_membus_load = 0, plane_hvs_load = 0\<rparr>,
               new_plane_state = \<lparr>fb = True, crtc = True, plane_membus_load = 2 ^ 31, plane_hvs_load = 1000\<rparr>\<rparr>])
        \<lparr>load_priv := Some \<lparr>hvs_load = 1000, membus_load = 2 ^ 31\<rparr>\<rparr>)
   \<and> fst (vc4_load_tracker_atomic_check
     (example_transaction (example_dev\<lparr>load_tracker_enabled := False\<rparr>) []
        [Some \<lparr>old_plane_state = \<lparr>fb = False, crtc = False, plane_membus_load = 0, plane_hvs_load = 0\<rparr>,
               new_plane_state = \<lparr>fb = True, crtc = True, plane_membus_load = 2 ^ 31, plane_hvs_load = 1000\<rparr>\<rparr>]))
     = Success"
proof -
  let ?p = "\<lparr>old_plane_state = \<lparr>fb = False, crtc = False, plane_membus_load = 0, plane_hvs_load = 0\<rparr>,
               new_plane_state = \<lparr>fb = True, crtc = True, plane_membus_load = 2 ^ 31, plane_hvs_load = 1000\<rparr>\<rparr>"
  let ?s = "example_transaction example_dev [] [Some ?p]"
  let ?t = "example_transaction (example_dev\<lparr>load_tracker_enabled := False\<rparr>) [] [Some ?p]"
  have obt: "load_obtainable ?s" "load_obtainable ?t"
    by (simp_all add: load_obtainable_def example_defs)
  from vc4_load_tracker_atomic_check_result [OF obt(1)] obtain ls where
    ls: "vc4_load_tracker_atomic_check ?s =
       (if load_tracker_enabled (dev ?s)
           \<and> (1610612736 < unat (membus_load ls) \<or> 240000000 < unat (hvs_load ls))
        then Error ENOSPC else Success, ?s\<lparr>load_priv := Some ls\<rparr>)"
    and m: "membus_load ls = 2 ^ 31" and h: "hvs_load ls = 1000"
    by (auto simp: example_defs load_seen_def plane_active_def vc4_load_tracker_duplicate_state_def)
  from m h have "ls = \<lparr>hvs_load = 1000, membus_load = 2 ^ 31\<rparr>"
    by (cases ls) simp
  with ls have one: "vc4_load_tracker_atomic_check ?s =
      (Error ENOSPC, ?s\<lparr>load_priv := Some \<lparr>hvs_load = 1000, membus_load = 2 ^ 31\<rparr>\<rparr>)"
    by (simp add: example_defs)
  from vc4_load_tracker_atomic_check_result [OF obt(2)]
  have two: "fst (vc4_load_tracker_atomic_check ?t) = Success"
    by (auto simp: example_defs)
  from obt(1) one two show ?thesis by simp
qed

text \<open>
  When the tracker's state is not yet in the transaction and cannot be obtained, the
  check returns that error and leaves the transaction as it was, whatever the flag.
\<close>

lemma vc4_load_tracker_atomic_check_unobtainable:
  assumes "load_priv s = None" and "load_obtain s = Some e"
  shows "vc4_load_tracker_atomic_check s = (Error e, s)"
  using assms by (simp add: vc4_load_tracker_atomic_check_def load_tracker_get_state_def)


section \<open>The core clock check\<close>

lemma core_clock_loop_sums:
  "num_outputs (core_clock_loop h cs) =
     num_outputs h
       - of_nat (length (filter (\<lambda>c. active (old_crtc_state c)) (entries cs)))
       + of_nat (length (filter (\<lambda>c. active (new_crtc_state c)) (entries cs)))
   \<and> fifo_load (core_clock_loop h cs) =
     fifo_load h
       - sum_list (map (\<lambda>c. crtc_hvs_load (old_crtc_state c))
                    (filter (\<lambda>c. active (old_crtc_state c)) (entries cs)))
       + sum_list (map (\<lambda>c. crtc_hvs_load (new_crtc_state c))
                    (filter (\<lambda>c. active (new_crtc_state c)) (entries cs)))
   \<and> unassigned_channels (core_clock_loop h cs) = unassigned_channels h
   \<and> core_clock_rate (core_clock_loop h cs) = core_clock_rate h"
  by (induction h cs rule: core_clock_loop.induct)
    (simp_all add: core_clock_crtc_def Let_def)

text \<open>
  What the core-clock check computes. When the load tracker's state and the HVS state can
  be obtained, it returns success. In the private HVS copy the number of outputs and the
  FIFO load are the values found, minus the contributions of the CRTCs that were active,
  plus those of the CRTCs that will be active; and the core clock rate is the maximum of
  that FIFO load and the pixel-rate term, which is computed from the tracker's HVS load in
  \<^verbatim>\<open>unsigned long\<close>, of width \<open>LENGTH('l)\<close>: the 64-bit load is truncated to it,
  multiplied by 40 when more than one output will be active and by 60 otherwise, the
  product wrapping at that width, and divided by 100.
\<close>

lemma vc4_core_clock_atomic_check_result:
  fixes s :: "'l::len drm_atomic_state"
  assumes "load_obtainable s" and "hvs_obtainable s"
  shows "\<exists>h'.
     vc4_core_clock_atomic_check s =
       (Success, s\<lparr>load_priv := Some (load_seen s), hvs_priv := Some h'\<rparr>)
     \<and> num_outputs h' =
         num_outputs (hvs_seen s)
           - of_nat (length (filter (\<lambda>c. active (old_crtc_state c)) (entries (crtcs s))))
           + of_nat (length (filter (\<lambda>c. active (new_crtc_state c)) (entries (crtcs s))))
     \<and> fifo_load h' =
         fifo_load (hvs_seen s)
           - sum_list (map (\<lambda>c. crtc_hvs_load (old_crtc_state c))
                        (filter (\<lambda>c. active (old_crtc_state c)) (entries (crtcs s))))
           + sum_list (map (\<lambda>c. crtc_hvs_load (new_crtc_state c))
                        (filter (\<lambda>c. active (new_crtc_state c)) (entries (crtcs s))))
     \<and> core_clock_rate h' =
         max (fifo_load h')
           (if 1 < unat (num_outputs h')
            then (ucast (hvs_load (load_seen s)) * 40) div 100
            else (ucast (hvs_load (load_seen s)) * 60) div 100)"
proof -
  let ?s1 = "s\<lparr>load_priv := Some (load_seen s)\<rparr>"
  let ?h = "core_clock_loop (hvs_seen s) (crtcs s)"
  let ?rate = "max (fifo_load ?h)
           (if 1 < num_outputs ?h
            then (ucast (hvs_load (load_seen s)) * 40) div 100
            else (ucast (hvs_load (load_seen s)) * 60) div (100 :: 'l word))"
  have obt: "hvs_obtainable ?s1" using assms(2) by (simp add: hvs_obtainable_def split: option.splits)
  have seen: "hvs_seen ?s1 = hvs_seen s" by (simp add: hvs_seen_def split: option.splits)
  have "vc4_core_clock_atomic_check s =
       (Success, s\<lparr>load_priv := Some (load_seen s), hvs_priv := Some (?h\<lparr>core_clock_rate := ?rate\<rparr>)\<rparr>)"
    using assms(1)
    by (simp add: vc4_core_clock_atomic_check_def load_tracker_get_state_ok
        vc4_hvs_get_global_state_ok [OF obt] seen Let_def)
  moreover have "(1 < num_outputs ?h) = (1 < unat (num_outputs ?h))"
    by (simp add: word_less_nat_alt)
  ultimately show ?thesis
    using core_clock_loop_sums [of "hvs_seen s" "crtcs s"]
    by (intro exI [of _ "?h\<lparr>core_clock_rate := ?rate\<rparr>"]) simp
qed

text \<open>
  As long as the product of the load with 40, or with 60, fits \<^verbatim>\<open>unsigned long\<close>, the
  pixel-rate term is 40/100, or 60/100, of the load.
\<close>

lemma core_clock_pixel_rate_fits:
  fixes load :: u64
  assumes fits: "unat load * k < 2 ^ LENGTH('l::len)" and k: "0 < k" "k < 128"
    and width: "7 \<le> LENGTH('l)"
  shows "unat ((ucast load * of_nat k) div 100 :: 'l word) = (unat load * k) div 100"
proof -
  have p: "(2 :: nat) ^ 7 \<le> 2 ^ LENGTH('l)"
    using width by (intro power_increasing) simp_all
  from fits k have small: "unat load < 2 ^ LENGTH('l)"
    by (metis One_nat_def Suc_leI le_less_trans mult.right_neutral mult_le_mono2)
  then have u: "unat (ucast load :: 'l word) = unat load"
    by (simp add: unsigned_ucast_eq take_bit_nat_eq_self)
  from k p have kk: "unat (of_nat k :: 'l word) = k"
    by (simp add: unat_of_nat take_bit_nat_eq_self)
  from p have h: "unat (100 :: 'l word) = 100"
    by (simp add: unat_of_nat take_bit_nat_eq_self unsigned_numeral)
  from fits u kk have "unat (ucast load * of_nat k :: 'l word) = unat load * k"
    by (simp add: unat_word_ariths)
  with h show ?thesis
    by (simp add: unat_div)
qed

lemma core_clock_pixel_rate_exact:
  fixes load :: u64
  assumes "7 \<le> LENGTH('l::len)"
  shows "unat load * 40 < 2 ^ LENGTH('l)
         \<Longrightarrow> unat ((ucast load * 40) div 100 :: 'l word) = (unat load * 40) div 100"
    and "unat load * 60 < 2 ^ LENGTH('l)
         \<Longrightarrow> unat ((ucast load * 60) div 100 :: 'l word) = (unat load * 60) div 100"
  using core_clock_pixel_rate_fits [of load 40, where 'l = 'l]
    core_clock_pixel_rate_fits [of load 60, where 'l = 'l] assms
  by simp_all

text \<open>
  C8, on a build whose \<^verbatim>\<open>unsigned long\<close> has 32 bits. The transaction turns on one CRTC
  and gives it a plane of HVS load 124416000. The whole validation accepts it, the load
  tracker included, and one output will be active, so the pixel-rate term should be 60/100
  of the load, 74649600, which is above the FIFO load of 1000. The product
  \<open>124416000 * 60\<close> does not fit 32 bits, and the core clock rate the check derives is
  31699927.
\<close>

theorem vc4_core_clock_atomic_check_overflow:
  "\<exists>s'. vc4_atomic_check (\<lambda>s. (Success, s)) example_modeset32 = Some (Success, s')
     \<and> map_option hvs_load (load_priv s') = Some 124416000
     \<and> map_option num_outputs (hvs_priv s') = Some 1
     \<and> map_option fifo_load (hvs_priv s') = Some 1000
     \<and> map_option core_clock_rate (hvs_priv s') = Some 31699927
     \<and> (124416000 * 60) div 100 = (74649600 :: nat)"
  by (simp add: vc4_atomic_check_def vc4_pv_muxing_atomic_check_def vc4_hvs_get_global_state_def
        pv_muxing_crtc_def vc4_hvs_channels_duplicate_state_def Let_def ffs_def upt_rec BIT_def
        vc4_ctm_atomic_check_def ctm_enable_loop.simps
        vc4_load_tracker_atomic_check_def load_tracker_get_state_def vc4_load_tracker_duplicate_state_def
        load_tracker_plane_def SZ_512M_def SZ_1G_def
        vc4_core_clock_atomic_check_def core_clock_crtc_def
        vc4_hvs_channels_obj_init_value example_dev32_def example_off32_def example_modeset32_def)


section \<open>The channel assignment of one CRTC\<close>

text \<open>
  C2, as the code has it. On a device that is not driven through the firmware, with a
  valid private HVS copy and an \<^verbatim>\<open>unsigned long\<close> of at least 32 bits, take a CRTC
  whose \<open>enable\<close> changes. If it is being disabled and its old channel is below 32, the
  old channel is added to the free set of the private copy, the new state's channel is
  \<^verbatim>\<open>VC4_HVS_CHANNEL_DISABLED\<close> and \<open>update_muxing\<close> is set, and the loop goes on. If it is
  being enabled, the candidates are the free set intersected with the CRTC's
  \<open>hvs_available_channels\<close>: when there is none the check returns \<^verbatim>\<open>-EINVAL\<close>; otherwise
  the lowest candidate is assigned, removed from the free set, \<open>update_muxing\<close> is set,
  and the loop goes on.
\<close>

theorem pv_muxing_crtc_assignment:
  fixes hv :: "'l::len vc4_hvs_state" and c :: "'l crtc_slot"
  assumes changed: "enable (old_crtc_state c) \<noteq> enable (new_crtc_state c)"
    and width: "32 \<le> LENGTH('l)"
  shows "(\<not> enable (new_crtc_state c) \<and> unat (assigned_channel (old_crtc_state c)) < 32 \<longrightarrow>
          (\<exists>hv' c'. pv_muxing_crtc False (Some hv) c = (None, Some hv', c')
             \<and> (\<forall>n. bit (unassigned_channels hv') n =
                      (bit (unassigned_channels hv) n \<or> n = unat (assigned_channel (old_crtc_state c))))
             \<and> assigned_channel (new_crtc_state c') = VC4_HVS_CHANNEL_DISABLED
             \<and> update_muxing (new_crtc_state c')))
       \<and> (enable (new_crtc_state c)
            \<and> unassigned_channels hv AND hvs_available_channels c = 0 \<longrightarrow>
          fst (pv_muxing_crtc False (Some hv) c) = Some (Error EINVAL))
       \<and> (enable (new_crtc_state c)
            \<and> unassigned_channels hv AND hvs_available_channels c \<noteq> 0 \<longrightarrow>
          (\<exists>hv' c' ch. pv_muxing_crtc False (Some hv) c = (None, Some hv', c')
             \<and> assigned_channel (new_crtc_state c') = word_of_nat ch \<and> ch < 32
             \<and> bit (unassigned_channels hv AND hvs_available_channels c) ch
             \<and> (\<forall>n<ch. \<not> bit (unassigned_channels hv AND hvs_available_channels c) n)
             \<and> (\<forall>n. bit (unassigned_channels hv') n = (bit (unassigned_channels hv) n \<and> n \<noteq> ch))
             \<and> update_muxing (new_crtc_state c')))"
proof (intro conjI impI)
  assume a: "\<not> enable (new_crtc_state c) \<and> unat (assigned_channel (old_crtc_state c)) < 32"
  let ?ch = "unat (assigned_channel (old_crtc_state c))"
  from a width have "?ch < LENGTH('l)" by simp
  with a changed show "\<exists>hv' c'. pv_muxing_crtc False (Some hv) c = (None, Some hv', c')
             \<and> (\<forall>n. bit (unassigned_channels hv') n =
                      (bit (unassigned_channels hv) n \<or> n = ?ch))
             \<and> assigned_channel (new_crtc_state c') = VC4_HVS_CHANNEL_DISABLED
             \<and> update_muxing (new_crtc_state c')"
    by (auto simp: pv_muxing_crtc_def Let_def bit_or_iff bit_BIT)
next
  assume "enable (new_crtc_state c) \<and> unassigned_channels hv AND hvs_available_channels c = 0"
  with changed show "fst (pv_muxing_crtc False (Some hv) c) = Some (Error EINVAL)"
    by (simp add: pv_muxing_crtc_def Let_def)
next
  assume a: "enable (new_crtc_state c) \<and> unassigned_channels hv AND hvs_available_channels c \<noteq> 0"
  let ?m = "unassigned_channels hv AND hvs_available_channels c"
  from a ffs_nonzero [of ?m] obtain n where n: "n < 32" "ffs ?m = Suc n" "bit ?m n" "\<forall>k<n. \<not> bit ?m k"
    by blast
  have bound: "k < 32" if "bit (unassigned_channels hv) k" for k
    using that bit_imp_le_length by fastforce
  show "\<exists>hv' c' ch. pv_muxing_crtc False (Some hv) c = (None, Some hv', c')
             \<and> assigned_channel (new_crtc_state c') = word_of_nat ch \<and> ch < 32
             \<and> bit ?m ch
             \<and> (\<forall>n<ch. \<not> bit ?m n)
             \<and> (\<forall>n. bit (unassigned_channels hv') n = (bit (unassigned_channels hv) n \<and> n \<noteq> ch))
             \<and> update_muxing (new_crtc_state c')"
    using a changed n bound
    by (intro exI [of _ n] exI)
      (auto simp: pv_muxing_crtc_def Let_def bit_and_iff bit_not_iff bit_BIT)
qed

text \<open>
  C2 as it is worded covers every CRTC whose \<open>enable\<close> changes. On a device driven through
  the firmware the loop skips every CRTC: here a CRTC is being enabled and the check
  succeeds with the transaction as it was but for the private HVS copy, so no channel is
  assigned and \<open>update_muxing\<close> stays clear; and a CRTC that can reach no channel at all is
  accepted too.
\<close>

theorem pv_muxing_crtc_assignment_counterexample:
  "vc4_pv_muxing_atomic_check
     (example_transaction (example_dev\<lparr>firmware_kms := True\<rparr>) [Some (example_enable 7)] [])
   = (Success,
      (example_transaction (example_dev\<lparr>firmware_kms := True\<rparr>) [Some (example_enable 7)] [])
      \<lparr>hvs_priv := Some vc4_hvs_channels_obj_init\<rparr>)
   \<and> fst (vc4_pv_muxing_atomic_check
     (example_transaction (example_dev\<lparr>firmware_kms := True\<rparr>) [Some (example_enable 0)] []))
   = Success"
  by (simp add: vc4_pv_muxing_atomic_check_def vc4_hvs_get_global_state_def pv_muxing_crtc_def
      vc4_hvs_channels_duplicate_state_def example_defs)

text \<open>
  The theorem on a 64-bit build: a CRTC that can reach every channel being enabled while
  channels 1 and 2 are free is given channel 1; a CRTC that can reach channel 0 only is
  refused then; and a CRTC on channel 1 being disabled while only channel 2 is free puts
  channel 1 back.
\<close>

theorem pv_muxing_crtc_assignment_witness:
  "pv_muxing_crtc False
     (Some (vc4_hvs_channels_obj_init\<lparr>unassigned_channels := 6\<rparr> :: 64 vc4_hvs_state))
     (example_enable 7)
   = (None, Some (vc4_hvs_channels_obj_init\<lparr>unassigned_channels := 4\<rparr>),
      (example_enable 7)\<lparr>new_crtc_state :=
         example_off\<lparr>enable := True, active := True, update_muxing := True, assigned_channel := 1\<rparr>\<rparr>)
   \<and> fst (pv_muxing_crtc False
     (Some (vc4_hvs_channels_obj_init\<lparr>unassigned_channels := 6\<rparr> :: 64 vc4_hvs_state))
     (example_enable 1)) = Some (Error EINVAL)
   \<and> pv_muxing_crtc False
     (Some (vc4_hvs_channels_obj_init\<lparr>unassigned_channels := 4\<rparr> :: 64 vc4_hvs_state))
     \<lparr>hvs_available_channels = 7, old_crtc_state = example_on 1,
      new_crtc_state = (example_on 1)\<lparr>enable := False, active := False\<rparr>\<rparr>
   = (None, Some (vc4_hvs_channels_obj_init\<lparr>unassigned_channels := 6\<rparr>),
      \<lparr>hvs_available_channels = 7, old_crtc_state = example_on 1,
       new_crtc_state = (example_on 1)\<lparr>enable := False, active := False, update_muxing := True,
          assigned_channel := VC4_HVS_CHANNEL_DISABLED\<rparr>\<rparr>)"
proof -
  let ?h6 = "vc4_hvs_channels_obj_init\<lparr>unassigned_channels := 6\<rparr> :: 64 vc4_hvs_state"
  let ?h4 = "vc4_hvs_channels_obj_init\<lparr>unassigned_channels := 4\<rparr> :: 64 vc4_hvs_state"
  let ?off = "\<lparr>hvs_available_channels = 7, old_crtc_state = example_on 1,
      new_crtc_state = (example_on 1)\<lparr>enable := False, active := False\<rparr>\<rparr> :: 64 crtc_slot"
  have w: "32 \<le> LENGTH(64)" by simp
  have ffs: "ffs 6 = 2"
    by (simp add: ffs_def upt_rec bit_numeral_Bit0_Suc_iff bit_numeral_Bit1_Suc_iff numeral_eq_Suc)
  from pv_muxing_crtc_assignment [of "example_enable 7" ?h6, OF _ w]
  obtain hv' c' ch where
    "pv_muxing_crtc False (Some ?h6) (example_enable 7) = (None, Some hv', c')"
    "update_muxing (new_crtc_state c')" "ch < (32 :: nat)"
    by (auto simp: example_defs)
  moreover have "pv_muxing_crtc False (Some ?h6) (example_enable 7)
      = (None, Some ?h4,
      (example_enable 7)\<lparr>new_crtc_state :=
         example_off\<lparr>enable := True, active := True, update_muxing := True, assigned_channel := 1\<rparr>\<rparr>)"
    by (simp add: pv_muxing_crtc_def Let_def ffs BIT_def example_defs)
  moreover
  from pv_muxing_crtc_assignment [of "example_enable 1" ?h6, OF _ w]
  have "fst (pv_muxing_crtc False (Some ?h6) (example_enable 1)) = Some (Error EINVAL)"
    by (simp add: example_defs)
  moreover
  from pv_muxing_crtc_assignment [of ?off ?h4, OF _ w]
  obtain hv'' c'' where
    "pv_muxing_crtc False (Some ?h4) ?off = (None, Some hv'', c'')"
    "assigned_channel (new_crtc_state c'') = VC4_HVS_CHANNEL_DISABLED"
    by (auto simp: example_defs)
  moreover have "pv_muxing_crtc False (Some ?h4) ?off
      = (None, Some ?h6,
      \<lparr>hvs_available_channels = 7, old_crtc_state = example_on 1,
       new_crtc_state = (example_on 1)\<lparr>enable := False, active := False, update_muxing := True,
          assigned_channel := VC4_HVS_CHANNEL_DISABLED\<rparr>\<rparr>)"
    by (simp add: pv_muxing_crtc_def Let_def BIT_def example_defs)
  ultimately show ?thesis by simp
qed


section \<open>Validation writes to the private copies only\<close>

lemma ctm_disable_loop_frame:
  "ctm_disable_loop p s cs = (r, p', s') \<Longrightarrow>
     dev s' = dev s \<and> crtcs s' = crtcs s \<and> planes s' = planes s
     \<and> hvs_priv s' = hvs_priv s \<and> load_priv s' = load_priv s"
proof (induction cs arbitrary: p s)
  case Nil
  then show ?case by simp
next
  case (Cons e cs)
  show ?case
  proof (cases "ctm_released e")
    case False
    then have "ctm_disable_loop p s (e # cs) = ctm_disable_loop p s cs"
      by (cases e) (auto simp: ctm_released_def)
    with Cons show ?thesis by simp
  next
    case True
    then obtain c where e: "e = Some c"
      and rel: "ctm (new_crtc_state c) = None \<and> ctm (old_crtc_state c) \<noteq> None"
      by (auto simp: ctm_released_def split: option.splits)
    obtain q s1 where g: "vc4_get_ctm_state s = (q, s1)" by (cases "vc4_get_ctm_state s")
    note f = vc4_get_ctm_state_frame [OF g]
    show ?thesis
    proof (cases q)
      case VALID
      with Cons.prems rel g e have loop: "ctm_disable_loop VALID
          (s1\<lparr>ctm_priv := map_option (\<lambda>ctm_state. ctm_state\<lparr>fifo := 0\<rparr>) (ctm_priv s1)\<rparr>) cs = (r, p', s')"
        by simp
      from Cons.IH [OF loop] f show ?thesis by simp
    next
      case NULL
      with Cons.prems rel g e f show ?thesis by auto
    next
      case (ERR_PTR x)
      with Cons.prems rel g e f show ?thesis by auto
    qed
  qed
qed

lemma ctm_enable_loop_frame:
  fixes s :: "'a::len drm_atomic_state"
  assumes "ctm_enable_loop p s i = Some y"
  shows "dev (snd y) = dev s \<and> crtcs (snd y) = crtcs s \<and> planes (snd y) = planes s
     \<and> hvs_priv (snd y) = hvs_priv s \<and> load_priv (snd y) = load_priv s"
proof (rule ctm_enable_loop.raw_induct
    [where P = "\<lambda>p s i y. dev (snd y) = dev s \<and> crtcs (snd y) = crtcs s \<and> planes (snd y) = planes s
       \<and> hvs_priv (snd y) = hvs_priv s \<and> load_priv (snd y) = load_priv s", OF _ assms])
  fix loop :: "pointer \<Rightarrow> 'a drm_atomic_state \<Rightarrow> nat \<Rightarrow> (outcome \<times> 'a drm_atomic_state) option"
    and p s i y
  assume IH: "\<And>p s i y. loop p s i = Some y \<Longrightarrow>
     dev (snd y) = dev s \<and> crtcs (snd y) = crtcs s \<and> planes (snd y) = planes s
       \<and> hvs_priv (snd y) = hvs_priv s \<and> load_priv (snd y) = load_priv s"
  and eq: "(if i < length (crtcs s) then
        (case crtcs s ! i of
           None \<Rightarrow> loop p s (Suc i)
         | Some c \<Rightarrow>
             if ctm (new_crtc_state c) = ctm (old_crtc_state c) then loop p s (Suc i)
             else
               (case (if p = NULL then vc4_get_ctm_state s else (p, s)) of
                  (ERR_PTR e, s1) \<Rightarrow> Some (Error e, s1)
                | (NULL, s1) \<Rightarrow> Some (Undefined, s1)
                | (VALID, s1) \<Rightarrow>
                    (case ctm (new_crtc_state c) of
                       None \<Rightarrow> loop VALID s1 (Suc i)
                     | Some blob \<Rightarrow>
                         (case ctm_priv s1 of
                            None \<Rightarrow> Some (Undefined, s1)
                          | Some ctm_state \<Rightarrow>
                              let fifo' = assigned_channel (new_crtc_state c) + 1 in
                              if fifo ctm_state \<noteq> 0 \<and> fifo ctm_state \<noteq> fifo'
                              then Some (Error EINVAL, s1)
                              else if \<not> ctm_matrix_loop (data blob) 0
                              then Some (Error EINVAL, s1)
                              else
                                loop VALID
                                  (s1\<lparr>ctm_priv :=
                                     Some (ctm_state\<lparr>fifo := fifo', ctm_ptr := Some (data blob)\<rparr>)\<rparr>)
                                  (Suc 9)))))
      else Some (Success, s)) = Some y"
  show "dev (snd y) = dev s \<and> crtcs (snd y) = crtcs s \<and> planes (snd y) = planes s
       \<and> hvs_priv (snd y) = hvs_priv s \<and> load_priv (snd y) = load_priv s"
    (is ?thesis)
  proof (cases "i < length (crtcs s)")
    case False
    with eq show ?thesis by auto
  next
    case inside: True
    show ?thesis
    proof (cases "ctm_untouched (crtcs s ! i)")
      case True
      with eq inside have "loop p s (Suc i) = Some y"
        by (auto simp: ctm_untouched_def split: option.splits)
      from IH [OF this] show ?thesis .
    next
      case False
      then obtain c where c: "crtcs s ! i = Some c" "ctm (new_crtc_state c) \<noteq> ctm (old_crtc_state c)"
        by (auto simp: ctm_untouched_def split: option.splits)
      obtain q s1 where g: "(if p = NULL then vc4_get_ctm_state s else (p, s)) = (q, s1)"
        by (cases "if p = NULL then vc4_get_ctm_state s else (p, s)")
      then have f: "dev s1 = dev s \<and> crtcs s1 = crtcs s \<and> planes s1 = planes s
         \<and> hvs_priv s1 = hvs_priv s \<and> load_priv s1 = load_priv s"
        by (auto dest: vc4_get_ctm_state_frame split: if_splits)
      note eq1 = eq inside c g
      show ?thesis
      proof (cases q)
        case NULL
        with eq1 f show ?thesis by auto
      next
        case (ERR_PTR e)
        with eq1 f show ?thesis by auto
      next
        case VALID
        show ?thesis
        proof (cases "ctm (new_crtc_state c)")
          case None
          with eq1 VALID have "loop VALID s1 (Suc i) = Some y" by simp
          from IH [OF this] f show ?thesis by simp
        next
          case (Some blob)
          show ?thesis
          proof (cases "ctm_priv s1")
            case None
            with eq1 VALID Some f show ?thesis by auto
          next
            case st: (Some ctm_state)
            let ?s2 = "s1\<lparr>ctm_priv := Some (ctm_state
                                  \<lparr>fifo := assigned_channel (new_crtc_state c) + 1,
                                   ctm_ptr := Some (data blob)\<rparr>)\<rparr>"
            from eq1 VALID Some st have "snd y = s1 \<or> loop VALID ?s2 (Suc 9) = Some y"
              by (auto simp: Let_def split: if_splits)
            then show ?thesis
            proof
              assume "snd y = s1"
              with f show ?thesis by simp
            next
              assume "loop VALID ?s2 (Suc 9) = Some y"
              from IH [OF this] f show ?thesis by simp
            qed
          qed
        qed
      qed
    qed
  qed
qed

lemma vc4_ctm_atomic_check_frame:
  assumes "vc4_ctm_atomic_check s = Some (r, s')"
  shows "dev s' = dev s \<and> crtcs s' = crtcs s \<and> planes s' = planes s
     \<and> hvs_priv s' = hvs_priv s \<and> load_priv s' = load_priv s"
proof -
  obtain r1 p1 s1 where d: "ctm_disable_loop NULL s (crtcs s) = (r1, p1, s1)"
    by (cases "ctm_disable_loop NULL s (crtcs s)") auto
  note f1 = ctm_disable_loop_frame [OF d]
  show ?thesis
  proof (cases r1)
    case None
    with assms d have "ctm_enable_loop p1 s1 0 = Some (r, s')"
      by (simp add: vc4_ctm_atomic_check_def)
    from ctm_enable_loop_frame [OF this] f1 show ?thesis by simp
  next
    case (Some x)
    with assms d f1 show ?thesis by (simp add: vc4_ctm_atomic_check_def)
  qed
qed

lemma vc4_load_tracker_atomic_check_frame:
  "vc4_load_tracker_atomic_check s = (r, s') \<Longrightarrow>
     dev s' = dev s \<and> crtcs s' = crtcs s \<and> planes s' = planes s
     \<and> hvs_priv s' = hvs_priv s \<and> ctm_priv s' = ctm_priv s"
  by (auto simp: vc4_load_tracker_atomic_check_def Let_def
      dest: load_tracker_get_state_frame split: prod.splits pointer.splits option.splits if_splits)

lemma pv_muxing_loop_length: "pv_muxing_loop fw h cs = (r, h', cs') \<Longrightarrow> length cs' = length cs"
  by (induction fw h cs arbitrary: r h' cs' rule: pv_muxing_loop.induct)
    (auto split: prod.splits option.splits)

lemma vc4_pv_muxing_atomic_check_frame:
  "vc4_pv_muxing_atomic_check s = (r, s') \<Longrightarrow>
     dev s' = dev s \<and> planes s' = planes s \<and> load_priv s' = load_priv s \<and> ctm_priv s' = ctm_priv s"
  by (auto simp: vc4_pv_muxing_atomic_check_def
      dest: vc4_hvs_get_global_state_frame split: prod.splits pointer.splits)

lemma vc4_core_clock_atomic_check_frame:
  assumes "vc4_core_clock_atomic_check s = (r, s')"
  shows "dev s' = dev s \<and> crtcs s' = crtcs s \<and> planes s' = planes s \<and> ctm_priv s' = ctm_priv s"
proof -
  obtain p s1 where g1: "load_tracker_get_state s = (p, s1)" by (cases "load_tracker_get_state s")
  obtain q s2 where g2: "vc4_hvs_get_global_state s1 = (q, s2)" by (cases "vc4_hvs_get_global_state s1")
  from load_tracker_get_state_frame [OF g1] vc4_hvs_get_global_state_frame [OF g2]
  have f: "dev s2 = dev s \<and> crtcs s2 = crtcs s \<and> planes s2 = planes s \<and> ctm_priv s2 = ctm_priv s"
    "dev s1 = dev s \<and> crtcs s1 = crtcs s \<and> planes s1 = planes s \<and> ctm_priv s1 = ctm_priv s"
    by simp_all
  from assms g1 g2 have "s' = s1 \<or> s' = s2 \<or> (\<exists>h. s' = s2\<lparr>hvs_priv := h\<rparr>)"
    by (auto simp: vc4_core_clock_atomic_check_def Let_def split: pointer.splits option.splits)
  with f show ?thesis by auto
qed

text \<open>
  C3. Whatever \<^verbatim>\<open>vc4_atomic_check\<close> returns, and so whenever it rejects, the published
  colour-matrix state, load-tracker state and channel-pool state of the device are what
  they were before: the checks write to the private copies of the transaction only. The
  helper check of the DRM core is a parameter, assumed to leave the device's published
  state alone as well.
\<close>

theorem vc4_atomic_check_keeps_published:
  assumes helper: "\<forall>s. dev (snd (helper_check s)) = dev s"
    and check: "vc4_atomic_check helper_check s = Some (r, s')"
  shows "ctm_manager (dev s') = ctm_manager (dev s)
       \<and> load_tracker (dev s') = load_tracker (dev s)
       \<and> hvs_channels (dev s') = hvs_channels (dev s)"
proof -
  obtain r1 s1 where c1: "vc4_pv_muxing_atomic_check s = (r1, s1)"
    by (cases "vc4_pv_muxing_atomic_check s")
  from vc4_pv_muxing_atomic_check_frame [OF c1] have d1: "dev s1 = dev s" by simp
  have "dev s' = dev s"
  proof (cases "r1 = Success")
    case False
    with check c1 d1 show ?thesis
      by (auto simp: vc4_atomic_check_def split: outcome.splits)
  next
    case True
    with check c1 obtain r2 s2 where c2: "vc4_ctm_atomic_check s1 = Some (r2, s2)"
      by (auto simp: vc4_atomic_check_def split: option.splits)
    from vc4_ctm_atomic_check_frame [OF c2] d1 have d2: "dev s2 = dev s" by simp
    show ?thesis
    proof (cases "r2 = Success")
      case False
      with check c1 c2 d2 True show ?thesis
        by (auto simp: vc4_atomic_check_def split: outcome.splits)
    next
      case r2: True
      obtain r3 s3 where c3: "helper_check s2 = (r3, s3)" by (cases "helper_check s2")
      with helper d2 have d3: "dev s3 = dev s" by (metis snd_conv)
      show ?thesis
      proof (cases "r3 = Success")
        case False
        with check c1 c2 c3 d3 True r2 show ?thesis
          by (auto simp: vc4_atomic_check_def split: outcome.splits)
      next
        case r3: True
        obtain r4 s4 where c4: "vc4_load_tracker_atomic_check s3 = (r4, s4)"
          by (cases "vc4_load_tracker_atomic_check s3")
        from vc4_load_tracker_atomic_check_frame [OF c4] d3 have d4: "dev s4 = dev s" by simp
        show ?thesis
        proof (cases "r4 = Success")
          case False
          with check c1 c2 c3 c4 d4 True r2 r3 show ?thesis
            by (auto simp: vc4_atomic_check_def split: outcome.splits)
        next
          case r4: True
          with check c1 c2 c3 c4 True r2 r3 have "vc4_core_clock_atomic_check s4 = (r, s')"
            by (auto simp: vc4_atomic_check_def)
          from vc4_core_clock_atomic_check_frame [OF this] d4 show ?thesis by simp
        qed
      qed
    qed
  qed
  then show ?thesis by simp
qed

text \<open>
  The theorem at a rejected transaction: the first CRTC is given channel 0, the second
  can reach no channel, so the check returns \<^verbatim>\<open>-EINVAL\<close>. The private copy of the pool
  has lost channel 0 (\<open>6\<close>), the published pool still has all three channels (\<open>7\<close>).
\<close>

theorem vc4_atomic_check_keeps_published_witness:
  "\<exists>s'. vc4_atomic_check (\<lambda>s. (Success, s))
          (example_transaction example_dev [Some (example_enable 7), Some (example_enable 0)] [])
        = Some (Error EINVAL, s')
      \<and> map_option unassigned_channels (hvs_priv s') = Some 6
      \<and> ctm_manager (dev s') = ctm_manager example_dev
      \<and> load_tracker (dev s') = load_tracker example_dev
      \<and> hvs_channels (dev s') = hvs_channels example_dev
      \<and> unassigned_channels (hvs_channels example_dev) = 7"
proof -
  let ?s = "example_transaction example_dev [Some (example_enable 7), Some (example_enable 0)] []"
  have ffs: "ffs 7 = 1"
    by (simp add: ffs_def upt_rec)
  obtain s' where chk: "vc4_atomic_check (\<lambda>s. (Success, s)) ?s = Some (Error EINVAL, s')"
    and pool: "map_option unassigned_channels (hvs_priv s') = Some 6"
    by (simp add: vc4_atomic_check_def vc4_pv_muxing_atomic_check_def vc4_hvs_get_global_state_def
        pv_muxing_crtc_def vc4_hvs_channels_duplicate_state_def Let_def ffs BIT_def
        vc4_hvs_channels_obj_init_value example_dev_def example_off_def example_enable_def
        example_transaction_def)
  have "\<forall>s :: 64 drm_atomic_state. dev (snd (Success, s)) = dev s" by simp
  from vc4_atomic_check_keeps_published [OF this chk] chk pool show ?thesis
    by (simp add: example_dev_def example_transaction_def vc4_hvs_channels_obj_init_value)
qed


section \<open>The channel pool across transactions\<close>

lemma pool_ok_iff:
  "pool_ok u vs =
     (distinct (view_channels vs)
      \<and> (\<forall>n \<in> set (view_channels vs). n < 3)
      \<and> (\<forall>n. bit u n = (n < 3 \<and> n \<notin> set (view_channels vs))))"
  by (simp add: pool_ok_def HVS_NUM_CHANNELS_def list_all_iff)

lemma view_channels_append: "view_channels (xs @ ys) = view_channels xs @ view_channels ys"
  by (simp add: view_channels_def)

lemma view_channels_Cons:
  "view_channels ((en, ch) # vs) = (if en then unat ch # view_channels vs else view_channels vs)"
  by (simp add: view_channels_def)

lemma pv_muxing_crtc_pool_ok:
  fixes hv :: "'l::len vc4_hvs_state"
  assumes ok: "pool_ok (unassigned_channels hv) (pre @ (enable (old_crtc_state c), assigned_channel (old_crtc_state c)) # post)"
    and same: "assigned_channel (new_crtc_state c) = assigned_channel (old_crtc_state c)"
    and step: "pv_muxing_crtc False (Some hv) c = (None, h', c')"
  shows "\<exists>hv'. h' = Some hv' \<and> pool_ok (unassigned_channels hv') (pre @ slot_channel c' # post)"
proof (cases "enable (old_crtc_state c) = enable (new_crtc_state c)")
  case True
  with step have "h' = Some hv" "c' = c" by (simp_all add: pv_muxing_crtc_def)
  with ok same True show ?thesis by (simp add: slot_channel_def)
next
  case changed: False
  show ?thesis
  proof (cases "enable (new_crtc_state c)")
    case False
    with changed have en: "enable (old_crtc_state c)" by simp
    let ?ch = "unat (assigned_channel (old_crtc_state c))"
    from step changed False have def: "?ch < LENGTH('l)"
      by (auto simp: pv_muxing_crtc_def Let_def split: if_splits)
    with step changed False have
      h': "h' = Some (hv\<lparr>unassigned_channels := unassigned_channels hv OR BIT ?ch\<rparr>)"
      and c': "slot_channel c' = (False, VC4_HVS_CHANNEL_DISABLED)"
      by (auto simp: pv_muxing_crtc_def Let_def slot_channel_def)
    from ok en have "pool_ok (unassigned_channels hv OR BIT ?ch) (pre @ (False, VC4_HVS_CHANNEL_DISABLED) # post)"
      by (auto simp: pool_ok_iff view_channels_append view_channels_Cons bit_or_iff bit_BIT)
    with h' c' show ?thesis by simp
  next
    case True
    with changed have en: "\<not> enable (old_crtc_state c)" by simp
    let ?m = "unassigned_channels hv AND hvs_available_channels c"
    from step changed True have nz: "?m \<noteq> 0"
      by (auto simp: pv_muxing_crtc_def Let_def split: if_splits)
    from ffs_nonzero [OF nz] obtain n where n: "n < 32" "ffs ?m = Suc n" "bit ?m n"
      by blast
    with step changed True nz have
      h': "h' = Some (hv\<lparr>unassigned_channels := unassigned_channels hv AND NOT (BIT n)\<rparr>)"
      and c': "slot_channel c' = (True, word_of_nat n)"
      by (auto simp: pv_muxing_crtc_def Let_def slot_channel_def)
    from n have un: "unat (word_of_nat n :: u32) = n"
      by (simp add: unat_of_nat take_bit_nat_eq_self)
    from n have "bit (unassigned_channels hv) n" by (simp add: bit_and_iff)
    with ok en have "pool_ok (unassigned_channels hv AND NOT (BIT n)) (pre @ (True, word_of_nat n) # post)"
      by (auto simp: pool_ok_iff view_channels_append view_channels_Cons bit_and_iff bit_not_iff bit_BIT un)
    with h' c' show ?thesis by simp
  qed
qed

lemma pv_muxing_crtc_no_success: "pv_muxing_crtc fw h c = (Some r, h', c') \<Longrightarrow> r \<noteq> Success"
  by (auto simp: pv_muxing_crtc_def Let_def split: if_splits option.splits)

lemma pv_muxing_loop_fw: "pv_muxing_loop True h cs = (Success, h, cs)"
proof (induction cs)
  case Nil
  then show ?case by simp
next
  case (Cons e cs)
  then show ?case by (cases e) (simp_all add: pv_muxing_crtc_def)
qed

lemma pv_muxing_loop_pool_ok:
  fixes hv :: "'l::len vc4_hvs_state"
  assumes "pv_muxing_loop False (Some hv) cs = (Success, h', cs')"
    and "pool_ok (unassigned_channels hv) (pre @ vs)"
    and "list_all2 entry_of_view vs cs"
  shows "\<exists>hv'. h' = Some hv'
           \<and> pool_ok (unassigned_channels hv') (pre @ map (\<lambda>(v, e). merge_view v e) (zip vs cs'))
           \<and> length cs' = length cs"
  using assms
proof (induction cs arbitrary: hv pre vs h' cs')
  case Nil
  then show ?case by auto
next
  case (Cons e cs)
  from Cons.prems(3) obtain v vs' where vs: "vs = v # vs'"
    and ev: "entry_of_view v e" and rest: "list_all2 entry_of_view vs' cs"
    by (auto simp: list_all2_Cons2)
  from Cons.prems(2) have ok: "pool_ok (unassigned_channels hv) ((pre @ [v]) @ vs')"
    by (simp add: vs)
  show ?case
  proof (cases e)
    case None
    with Cons.prems(1) obtain cs'' where
      loop: "pv_muxing_loop False (Some hv) cs = (Success, h', cs'')" and cs': "cs' = None # cs''"
      by (auto split: prod.splits)
    from Cons.IH [OF loop ok rest] show ?thesis
      by (auto simp: vs cs' merge_view_def)
  next
    case (Some c)
    obtain r h1 c1 where body: "pv_muxing_crtc False (Some hv) c = (r, h1, c1)"
      by (cases "pv_muxing_crtc False (Some hv) c") auto
    show ?thesis
    proof (cases r)
      case (Some x)
      with body Cons.prems(1) \<open>e = Some c\<close> have "x = Success" by simp
      with body Some pv_muxing_crtc_no_success show ?thesis by blast
    next
      case None
      from ev \<open>e = Some c\<close> have v: "v = (enable (old_crtc_state c), assigned_channel (old_crtc_state c))"
        and same: "assigned_channel (new_crtc_state c) = assigned_channel (old_crtc_state c)"
        by (simp_all add: entry_of_view_def)
      from Cons.prems(2) have "pool_ok (unassigned_channels hv)
          (pre @ (enable (old_crtc_state c), assigned_channel (old_crtc_state c)) # vs')"
        by (simp add: vs v)
      from pv_muxing_crtc_pool_ok [OF this same body [unfolded None]]
      obtain hv1 where h1: "h1 = Some hv1"
        and ok1: "pool_ok (unassigned_channels hv1) ((pre @ [slot_channel c1]) @ vs')"
        by auto
      from Cons.prems(1) body None h1 \<open>e = Some c\<close> obtain cs'' where
        loop: "pv_muxing_loop False (Some hv1) cs = (Success, h', cs'')" and cs': "cs' = Some c1 # cs''"
        by (auto split: prod.splits)
      from Cons.IH [OF loop ok1 rest] show ?thesis
        by (auto simp: vs cs' merge_view_def)
    qed
  qed
qed

lemma vc4_core_clock_atomic_check_pool:
  assumes "vc4_core_clock_atomic_check s = (Success, s')"
  shows "\<exists>h'. hvs_priv s' = Some h' \<and> unassigned_channels h' = unassigned_channels (hvs_seen s)"
proof -
  obtain p s1 where g1: "load_tracker_get_state s = (p, s1)" by (cases "load_tracker_get_state s")
  obtain q s2 where g2: "vc4_hvs_get_global_state s1 = (q, s2)" by (cases "vc4_hvs_get_global_state s1")
  from assms g1 g2 have v: "p = VALID" "q = VALID"
    by (auto simp: vc4_core_clock_atomic_check_def split: pointer.splits)
  from load_tracker_get_state_frame [OF g1] have same: "hvs_priv s1 = hvs_priv s" "dev s1 = dev s"
    by simp_all
  have "hvs_priv s2 = Some (hvs_seen s)"
  proof (cases "hvs_priv s")
    case None
    with g2 v same show ?thesis
      by (auto simp: vc4_hvs_get_global_state_def hvs_seen_def split: option.splits)
  next
    case (Some hv)
    with g2 v same show ?thesis
      by (auto simp: vc4_hvs_get_global_state_def hvs_seen_def)
  qed
  with assms g1 g2 v show ?thesis
    using core_clock_loop_sums [of "hvs_seen s" "crtcs s2"]
    by (auto simp: vc4_core_clock_atomic_check_def Let_def split: option.splits)
qed

lemma vc4_atomic_check_SuccessD:
  assumes "vc4_atomic_check h s0 = Some (Success, s')"
  obtains s1 s2 s3 s4 where
    "vc4_pv_muxing_atomic_check s0 = (Success, s1)"
    "vc4_ctm_atomic_check s1 = Some (Success, s2)"
    "h s2 = (Success, s3)"
    "vc4_load_tracker_atomic_check s3 = (Success, s4)"
    "vc4_core_clock_atomic_check s4 = (Success, s')"
  using assms
  by (auto simp: vc4_atomic_check_def split: prod.splits outcome.splits option.splits)

lemma pv_muxing_loop_none:
  "pv_muxing_loop False None cs = (Success, h', cs') \<Longrightarrow>
     h' = None \<and> cs' = cs
     \<and> list_all (\<lambda>e. case e of None \<Rightarrow> True
               | Some c \<Rightarrow> enable (old_crtc_state c) = enable (new_crtc_state c)) cs"
proof (induction cs arbitrary: h' cs')
  case Nil
  then show ?case by auto
next
  case (Cons e cs)
  show ?case
  proof (cases e)
    case None
    with Cons.prems obtain cs'' where
      "pv_muxing_loop False None cs = (Success, h', cs'')" "cs' = None # cs''"
      by (auto split: prod.splits)
    with Cons.IH [OF this(1)] None show ?thesis by simp
  next
    case (Some c)
    show ?thesis
    proof (cases "enable (old_crtc_state c) = enable (new_crtc_state c)")
      case True
      then have body: "pv_muxing_crtc False None c = (None, None, c)"
        by (simp add: pv_muxing_crtc_def)
      with Cons.prems Some obtain cs'' where
        "pv_muxing_loop False None cs = (Success, h', cs'')" "cs' = Some c # cs''"
        by (auto split: prod.splits)
      with Cons.IH [OF this(1)] Some True show ?thesis by simp
    next
      case False
      then have "fst (pv_muxing_crtc False None c) = Some Undefined"
        by (simp add: pv_muxing_crtc_def Let_def)
      with Cons.prems Some show ?thesis
        by (auto split: prod.splits option.splits)
    qed
  qed
qed

lemma merge_view_skip:
  assumes "list_all2 entry_of_view vs cs"
    and "list_all (\<lambda>e. case e of None \<Rightarrow> True
               | Some c \<Rightarrow> enable (old_crtc_state c) = enable (new_crtc_state c)) cs"
  shows "map (\<lambda>(v, e). merge_view v e) (zip vs cs) = vs"
  using assms
  by (induction vs cs rule: list_all2_induct)
    (auto simp: merge_view_def entry_of_view_def slot_channel_def split: option.splits)

lemma merge_view_cong:
  assumes "map (map_option slot_channel) es' = map (map_option slot_channel) es"
  shows "map (\<lambda>(v, e). merge_view v e) (zip vs es') = map (\<lambda>(v, e). merge_view v e) (zip vs es)"
  using assms
proof (induction vs arbitrary: es es')
  case Nil
  then show ?case by simp
next
  case (Cons v vs)
  show ?case
  proof (cases es)
    case Nil
    with Cons.prems show ?thesis by simp
  next
    case es: (Cons e es1)
    with Cons.prems obtain e' es1' where es': "es' = e' # es1'"
      and h: "map_option slot_channel e' = map_option slot_channel e"
      and t: "map (map_option slot_channel) es1' = map (map_option slot_channel) es1"
      by (cases es') auto
    from h have "merge_view v e' = merge_view v e"
      by (cases e; cases e') (simp_all add: merge_view_def)
    with Cons.IH [OF t] show ?thesis by (simp add: es es')
  qed
qed

lemma begin_transaction_entries:
  "length reqs = length crs \<Longrightarrow>
     list_all2 entry_of_view (map crtc_view crs) (map (\<lambda>(cr, req). crtc_entry cr req) (zip crs reqs))"
  by (induction reqs crs rule: list_induct2)
    (auto simp: entry_of_view_def crtc_entry_def crtc_view_def split: option.splits)

lemma publish_view:
  "length es = length crs \<Longrightarrow>
     map crtc_view (map (\<lambda>(cr, e). publish_crtc cr e) (zip crs es))
       = map (\<lambda>(v, e). merge_view v e) (zip (map crtc_view crs) es)"
  by (induction es crs rule: list_induct2)
    (auto simp: publish_crtc_def merge_view_def crtc_view_def slot_channel_def split: option.splits)

lemma merge_view_channels:
  "list_all2 entry_of_view vs cs \<Longrightarrow>
     map snd (map (\<lambda>(v, e). merge_view v e) (zip vs cs)) = map snd vs"
  by (induction vs cs rule: list_all2_induct)
    (auto simp: merge_view_def entry_of_view_def slot_channel_def split: option.splits)

lemma pv_check_begin:
  fixes k :: "'l::len kms_device"
  assumes pv: "vc4_pv_muxing_atomic_check (begin_transaction k reqs pl e1 e2 e3) = (Success, s1)"
  obtains hh cs1 where
    "pv_muxing_loop (firmware_kms (kms_dev k))
       (case e3 of None \<Rightarrow> Some (vc4_hvs_channels_duplicate_state (hvs_channels (kms_dev k))) | Some e \<Rightarrow> None)
       (map (\<lambda>(cr, req). crtc_entry cr req) (zip (kms_crtcs k) reqs)) = (Success, hh, cs1)"
    "crtcs s1 = cs1"
    "hvs_priv s1 = (case e3 of None \<Rightarrow> hh | Some e \<Rightarrow> None)"
  using pv
  by (cases e3)
    (auto simp: vc4_pv_muxing_atomic_check_def vc4_hvs_get_global_state_def begin_transaction_def
      split: prod.splits)

lemma commit_device_ok:
  fixes k :: "'l::len kms_device"
  assumes ok: "device_ok k" and len: "length reqs = length (kms_crtcs k)" and hf: "helper_frame h"
    and chk: "vc4_atomic_check h (begin_transaction k reqs pl e1 e2 e3) = Some (Success, s')"
  shows "device_ok (swap_state k s')"
proof -
  let ?s0 = "begin_transaction k reqs pl e1 e2 e3"
  let ?cs0 = "map (\<lambda>(cr, req). crtc_entry cr req) (zip (kms_crtcs k) reqs)"
  let ?vs = "map crtc_view (kms_crtcs k)"
  let ?u = "unassigned_channels (hvs_channels (kms_dev k))"
  let ?fw = "firmware_kms (kms_dev k)"
  from chk obtain s1 s2 s3 s4 where
    pv: "vc4_pv_muxing_atomic_check ?s0 = (Success, s1)"
    and cm: "vc4_ctm_atomic_check s1 = Some (Success, s2)"
    and hc: "h s2 = (Success, s3)"
    and lt: "vc4_load_tracker_atomic_check s3 = (Success, s4)"
    and cc: "vc4_core_clock_atomic_check s4 = (Success, s')"
    by (rule vc4_atomic_check_SuccessD)
  note f1 = vc4_pv_muxing_atomic_check_frame [OF pv]
    and f2 = vc4_ctm_atomic_check_frame [OF cm]
    and f4 = vc4_load_tracker_atomic_check_frame [OF lt]
    and f5 = vc4_core_clock_atomic_check_frame [OF cc]
  from hf hc have f3: "dev s3 = dev s2"
    "map (map_option slot_channel) (crtcs s3) = map (map_option slot_channel) (crtcs s2)"
    "map_option unassigned_channels (hvs_priv s3) = map_option unassigned_channels (hvs_priv s2)"
    unfolding helper_frame_def by (metis snd_conv)+
  have dev4: "dev s4 = kms_dev k"
    using f1 f2 f3 f4 by (simp add: begin_transaction_def)
  have slots: "map (map_option slot_channel) (crtcs s') = map (map_option slot_channel) (crtcs s1)"
    using f2 f3 f4 f5 by simp
  have pool4: "map_option unassigned_channels (hvs_priv s4) = map_option unassigned_channels (hvs_priv s1)"
    using f2 f3 f4 by simp
  from vc4_core_clock_atomic_check_pool [OF cc] obtain hf' where
    hf': "hvs_priv s' = Some hf'" "unassigned_channels hf' = unassigned_channels (hvs_seen s4)"
    by blast
  have seen: "unassigned_channels (hvs_seen s4)
      = (case hvs_priv s1 of Some hv \<Rightarrow> unassigned_channels hv | None \<Rightarrow> ?u)"
    using pool4 dev4
    by (cases "hvs_priv s4"; cases "hvs_priv s1")
      (auto simp: hvs_seen_def vc4_hvs_channels_duplicate_state_def)
  from pv obtain hh cs1 where
    loop: "pv_muxing_loop ?fw
       (case e3 of None \<Rightarrow> Some (vc4_hvs_channels_duplicate_state (hvs_channels (kms_dev k))) | Some e \<Rightarrow> None)
       ?cs0 = (Success, hh, cs1)"
    and cs1: "crtcs s1 = cs1"
    and hp1: "hvs_priv s1 = (case e3 of None \<Rightarrow> hh | Some e \<Rightarrow> None)"
    by (rule pv_check_begin)
  from pv_muxing_loop_length [OF loop] len have len1: "length cs1 = length (kms_crtcs k)"
    by simp
  from slots cs1 have len': "length (crtcs s') = length cs1"
    by (metis length_map)
  have views: "map crtc_view (kms_crtcs (swap_state k s'))
      = map (\<lambda>(v, e). merge_view v e) (zip ?vs cs1)"
    using publish_view [of "crtcs s'" "kms_crtcs k"] len' len1 merge_view_cong [OF slots, of ?vs] cs1
    by (simp add: swap_state_def)
  have fw': "firmware_kms (kms_dev (swap_state k s')) = ?fw"
    by (simp add: swap_state_def)
  have u': "unassigned_channels (hvs_channels (kms_dev (swap_state k s')))
      = (case hvs_priv s1 of Some hv \<Rightarrow> unassigned_channels hv | None \<Rightarrow> ?u)"
    using hf' seen by (simp add: swap_state_def)
  have entries: "list_all2 entry_of_view ?vs ?cs0"
    using len by (rule begin_transaction_entries)
  show ?thesis
  proof (cases ?fw)
    case True
    with loop pv_muxing_loop_fw [of "case e3 of None \<Rightarrow> Some (vc4_hvs_channels_duplicate_state (hvs_channels (kms_dev k))) | Some e \<Rightarrow> None" ?cs0]
    have hh: "hh = (case e3 of None \<Rightarrow> Some (vc4_hvs_channels_duplicate_state (hvs_channels (kms_dev k))) | Some e \<Rightarrow> None)"
      and same: "cs1 = ?cs0"
      by simp_all
    from hp1 hh have "(case hvs_priv s1 of Some hv \<Rightarrow> unassigned_channels hv | None \<Rightarrow> ?u) = ?u"
      by (cases e3) (simp_all add: vc4_hvs_channels_duplicate_state_def)
    with u' have u'': "unassigned_channels (hvs_channels (kms_dev (swap_state k s'))) = ?u"
      by simp
    from ok True have all: "list_all (\<lambda>cr. assigned_channel (crtc_state cr) = VC4_HVS_CHANNEL_DISABLED) (kms_crtcs k)"
      and bits: "\<forall>n. bit ?u n = (n < HVS_NUM_CHANNELS)"
      by (simp_all add: device_ok_def)
    have "map snd (map (\<lambda>(v, e). merge_view v e) (zip ?vs ?cs0)) = map snd ?vs"
      using entries by (rule merge_view_channels)
    with views same have "map snd (map crtc_view (kms_crtcs (swap_state k s'))) = map snd ?vs"
      by simp
    then have "map (\<lambda>cr. assigned_channel (crtc_state cr)) (kms_crtcs (swap_state k s'))
        = map (\<lambda>cr. assigned_channel (crtc_state cr)) (kms_crtcs k)"
      by (simp add: crtc_view_def comp_def)
    moreover from all have "list_all (\<lambda>x. x = VC4_HVS_CHANNEL_DISABLED)
        (map (\<lambda>cr. assigned_channel (crtc_state cr)) (kms_crtcs k))"
      by (simp add: list.pred_map comp_def)
    ultimately have "list_all (\<lambda>x. x = VC4_HVS_CHANNEL_DISABLED)
        (map (\<lambda>cr. assigned_channel (crtc_state cr)) (kms_crtcs (swap_state k s')))"
      by simp
    then have "list_all (\<lambda>cr. assigned_channel (crtc_state cr) = VC4_HVS_CHANNEL_DISABLED)
        (kms_crtcs (swap_state k s'))"
      by (simp add: list.pred_map comp_def)
    with bits u'' fw' True show ?thesis
      by (simp add: device_ok_def)
  next
    case False
    with ok have pool: "pool_ok ?u ([] @ ?vs)"
      by (simp add: device_ok_def)
    have "pool_ok (case hvs_priv s1 of Some hv \<Rightarrow> unassigned_channels hv | None \<Rightarrow> ?u)
        (map (\<lambda>(v, e). merge_view v e) (zip ?vs cs1))"
    proof (cases e3)
      case None
      with loop False have l: "pv_muxing_loop False
          (Some (vc4_hvs_channels_duplicate_state (hvs_channels (kms_dev k)))) ?cs0 = (Success, hh, cs1)"
        by simp
      have "pool_ok (unassigned_channels (vc4_hvs_channels_duplicate_state (hvs_channels (kms_dev k)))) ([] @ ?vs)"
        using pool by (simp add: vc4_hvs_channels_duplicate_state_def)
      from pv_muxing_loop_pool_ok [OF l this entries] hp1 None show ?thesis
        by auto
    next
      case (Some e)
      with loop False have l: "pv_muxing_loop False None ?cs0 = (Success, hh, cs1)"
        by simp
      from pv_muxing_loop_none [OF l] merge_view_skip [OF entries] pool hp1 Some show ?thesis
        by simp
    qed
    with views u' fw' False show ?thesis
      by (simp add: device_ok_def)
  qed
qed

lemma initial_device_ok:
  fixes k :: "'l::len kms_device"
  assumes "initial_device k"
  shows "device_ok k"
proof -
  from assms have u: "unassigned_channels (hvs_channels (kms_dev k)) = GENMASK (HVS_NUM_CHANNELS - 1) 0"
    and off: "list_all (\<lambda>cr. \<not> enable (crtc_state cr)
                       \<and> assigned_channel (crtc_state cr) = VC4_HVS_CHANNEL_DISABLED) (kms_crtcs k)"
    by (simp_all add: initial_device_def vc4_hvs_channels_obj_init_def)
  from off have "filter fst (map crtc_view (kms_crtcs k)) = []"
    by (auto simp: filter_empty_conv crtc_view_def list_all_iff)
  then have none: "view_channels (map crtc_view (kms_crtcs k)) = []"
    by (simp add: view_channels_def)
  from off have dis: "list_all (\<lambda>cr. assigned_channel (crtc_state cr) = VC4_HVS_CHANNEL_DISABLED) (kms_crtcs k)"
    by (simp add: list_all_iff)
  show ?thesis
    using none dis
    by (simp add: device_ok_def pool_ok_def u GENMASK_channels del: One_nat_def)
qed

lemma reachable_device_ok: "reachable k \<Longrightarrow> device_ok k"
proof (induction rule: reachable.induct)
  case (start k)
  then show ?case by (rule initial_device_ok)
next
  case (commit k reqs h pl e_ctm e_load e_hvs s')
  from commit.IH commit.hyps(2,3,4) show ?case by (rule commit_device_ok)
qed

lemma device_ok_sets:
  fixes k :: "'l::len kms_device"
  assumes "device_ok k"
  shows "free_channels k \<inter> set (assigned_channels k) = {}
       \<and> free_channels k \<union> set (assigned_channels k) = {0..<HVS_NUM_CHANNELS}
       \<and> distinct (assigned_channels k)"
proof (cases "firmware_kms (kms_dev k)")
  case True
  with assms have bits: "\<forall>n. bit (unassigned_channels (hvs_channels (kms_dev k))) n = (n < HVS_NUM_CHANNELS)"
    and dis: "list_all (\<lambda>cr. assigned_channel (crtc_state cr) = VC4_HVS_CHANNEL_DISABLED) (kms_crtcs k)"
    by (simp_all add: device_ok_def)
  from dis have "filter has_channel (kms_crtcs k) = []"
    by (auto simp: filter_empty_conv has_channel_def list_all_iff)
  then have none: "assigned_channels k = []" by (simp add: assigned_channels_def)
  from bits have "free_channels k = {n. n < HVS_NUM_CHANNELS}"
    by (simp add: free_channels_def)
  also have "\<dots> = {0..<HVS_NUM_CHANNELS}" by auto
  finally show ?thesis by (simp add: none)
next
  case False
  let ?vs = "map crtc_view (kms_crtcs k)"
  from assms False have pool: "pool_ok (unassigned_channels (hvs_channels (kms_dev k))) ?vs"
    by (simp add: device_ok_def)
  then have small: "\<forall>n \<in> set (view_channels ?vs). n < HVS_NUM_CHANNELS"
    by (simp add: pool_ok_def list_all_iff)
  have "has_channel cr = enable (crtc_state cr)" if "cr \<in> set (kms_crtcs k)" for cr
  proof (cases "enable (crtc_state cr)")
    case False
    then show ?thesis by (simp add: has_channel_def)
  next
    case True
    with that have "unat (assigned_channel (crtc_state cr)) \<in> set (view_channels ?vs)"
      by (force simp: view_channels_def crtc_view_def)
    with small have "unat (assigned_channel (crtc_state cr)) < 3"
      by (auto simp: HVS_NUM_CHANNELS_def)
    then have "assigned_channel (crtc_state cr) \<noteq> VC4_HVS_CHANNEL_DISABLED"
      using unat_DISABLED by auto
    with True show ?thesis by (simp add: has_channel_def)
  qed
  then have "filter has_channel (kms_crtcs k) = filter (\<lambda>cr. enable (crtc_state cr)) (kms_crtcs k)"
    by (intro filter_cong) auto
  then have eq: "assigned_channels k = view_channels ?vs"
    by (simp add: assigned_channels_def view_channels_def crtc_view_def filter_map comp_def)
  from pool have free: "free_channels k
      = {n. n < HVS_NUM_CHANNELS \<and> n \<notin> set (view_channels ?vs)}"
    by (simp add: pool_ok_def free_channels_def)
  from pool have dist: "distinct (view_channels ?vs)"
    by (simp add: pool_ok_def)
  have "{n. n < HVS_NUM_CHANNELS \<and> n \<notin> set (view_channels ?vs)} \<inter> set (view_channels ?vs) = {}"
    by blast
  moreover have "{n. n < HVS_NUM_CHANNELS \<and> n \<notin> set (view_channels ?vs)} \<union> set (view_channels ?vs)
      = {0..<HVS_NUM_CHANNELS}"
    using small by (auto simp: atLeastLessThan_iff)
  ultimately show ?thesis
    by (simp only: eq free dist simp_thms)
qed

text \<open>
  C4. In every device state reached from the initial one by accepted transactions, the
  free channels and the channels assigned to the CRTCs that are enabled are disjoint,
  together they are the channels \<open>0, 1, 2\<close>, and no channel is assigned to two CRTCs.
\<close>

theorem channel_pool_invariant:
  fixes k :: "'l::len kms_device"
  assumes "reachable k"
  shows "free_channels k \<inter> set (assigned_channels k) = {}
       \<and> free_channels k \<union> set (assigned_channels k) = {0..<HVS_NUM_CHANNELS}
       \<and> distinct (assigned_channels k)"
  using assms by (intro device_ok_sets reachable_device_ok)

text \<open>
  The theorem at the state reached by one accepted transaction that enables the first of
  two CRTCs: it holds channel 0, and channels 1 and 2 are free.
\<close>

theorem channel_pool_invariant_witness:
  "\<exists>s'. vc4_atomic_check (\<lambda>s. (Success, s))
          (begin_transaction
             \<lparr>kms_dev = example_dev,
              kms_crtcs = [\<lparr>crtc_channels = 7, crtc_state = example_off\<rparr>,
                           \<lparr>crtc_channels = 6, crtc_state = example_off\<rparr>]\<rparr>
             [Some (example_off\<lparr>enable := True, active := True\<rparr>), None] [] None None None)
        = Some (Success, s')
      \<and> reachable (swap_state
             \<lparr>kms_dev = example_dev,
              kms_crtcs = [\<lparr>crtc_channels = 7, crtc_state = example_off\<rparr>,
                           \<lparr>crtc_channels = 6, crtc_state = example_off\<rparr>]\<rparr> s')
      \<and> assigned_channels (swap_state
             \<lparr>kms_dev = example_dev,
              kms_crtcs = [\<lparr>crtc_channels = 7, crtc_state = example_off\<rparr>,
                           \<lparr>crtc_channels = 6, crtc_state = example_off\<rparr>]\<rparr> s') = [0]
      \<and> free_channels (swap_state
             \<lparr>kms_dev = example_dev,
              kms_crtcs = [\<lparr>crtc_channels = 7, crtc_state = example_off\<rparr>,
                           \<lparr>crtc_channels = 6, crtc_state = example_off\<rparr>]\<rparr> s') = {1, 2}"
proof -
  let ?k = "\<lparr>kms_dev = example_dev,
              kms_crtcs = [\<lparr>crtc_channels = 7, crtc_state = example_off\<rparr>,
                           \<lparr>crtc_channels = 6, crtc_state = example_off\<rparr>]\<rparr>"
  let ?reqs = "[Some (example_off\<lparr>enable := True, active := True\<rparr>), None]"
  let ?h = "\<lambda>s :: 64 drm_atomic_state. (Success, s)"
  have ffs: "ffs 7 = 1"
    by (simp add: ffs_def upt_rec)
  have start: "reachable ?k"
    by (rule reachable.start) (simp add: initial_device_def example_dev_def example_off_def)
  have frame: "helper_frame ?h"
    by (simp add: helper_frame_def)
  obtain s' where chk: "vc4_atomic_check ?h (begin_transaction ?k ?reqs [] None None None) = Some (Success, s')"
    and assigned: "map (map_option (\<lambda>c. assigned_channel (new_crtc_state c))) (crtcs s') = [Some 0, None]"
    and enabled: "map (map_option (\<lambda>c. enable (new_crtc_state c))) (crtcs s') = [Some True, None]"
    by (simp add: vc4_atomic_check_def vc4_pv_muxing_atomic_check_def vc4_hvs_get_global_state_def
        pv_muxing_crtc_def vc4_hvs_channels_duplicate_state_def Let_def ffs BIT_def
        vc4_ctm_atomic_check_def ctm_enable_loop.simps
        vc4_load_tracker_atomic_check_def load_tracker_get_state_def vc4_load_tracker_duplicate_state_def
        vc4_core_clock_atomic_check_def core_clock_crtc_def
        begin_transaction_def crtc_entry_def
        vc4_hvs_channels_obj_init_value example_dev_def example_off_def)
  have reach: "reachable (swap_state ?k s')"
    by (rule reachable.commit [OF start _ frame chk]) simp
  have a: "assigned_channels (swap_state ?k s') = [0]"
    using assigned enabled
    by (cases "crtcs s'")
      (auto simp: assigned_channels_def swap_state_def publish_crtc_def has_channel_def
        VC4_HVS_CHANNEL_DISABLED_def example_off_def split: option.splits)
  from channel_pool_invariant [OF reach] a
  have i: "0 \<notin> free_channels (swap_state ?k s')"
    and u: "insert 0 (free_channels (swap_state ?k s')) = {0..<HVS_NUM_CHANNELS}"
    by simp_all
  have r: "{0..<HVS_NUM_CHANNELS} = {0, 1, 2}"
    unfolding HVS_NUM_CHANNELS_def by (simp add: atLeastLessThan_nat_numeral insert_commute)
  have "n \<in> free_channels (swap_state ?k s') \<longleftrightarrow> n \<in> {1, 2}" for n
  proof (cases "n = 0")
    case True
    with i show ?thesis by simp
  next
    case False
    have "n \<in> insert 0 (free_channels (swap_state ?k s')) \<longleftrightarrow> n \<in> {0, 1, 2}"
      by (simp only: u r)
    with False show ?thesis by simp
  qed
  then have "free_channels (swap_state ?k s') = {1, 2}"
    by (rule set_eqI)
  with chk reach a show ?thesis by blast
qed


section \<open>The commit gate\<close>

lemma follows_gate_append_plain:
  "\<forall>e \<in> set xs. e \<noteq> Down_interruptible \<and> e \<noteq> Up \<and> (p \<noteq> Holding \<longrightarrow> \<not> hardware_step e)
   \<Longrightarrow> follows_gate p (xs @ r) = follows_gate p r"
proof (induction xs)
  case Nil
  show ?case by simp
next
  case (Cons e xs)
  then have "gate_phase_after p e = Some p"
    by (cases p; cases e) auto
  with Cons show ?case by simp
qed

lemma mask_underrun_loop_events:
  "e \<in> set (mask_underrun_loop env s) \<Longrightarrow> \<exists>ch. e = Mask_underrun ch"
  by (auto simp: mask_underrun_loop_def split: option.splits if_splits)

lemma follows_gate_mask:
  "follows_gate Holding (mask_underrun_loop env s @ r) = follows_gate Holding r"
  by (rule follows_gate_append_plain) (auto dest: mask_underrun_loop_events)

lemma mask_underrun_loop_filter:
  "filter hardware_step (mask_underrun_loop env s) = mask_underrun_loop env s"
  by (rule filter_True) (auto dest: mask_underrun_loop_events)

lemma mask_underrun_loop_no_gate:
  "Up \<notin> set (mask_underrun_loop env s)" "Down_interruptible \<notin> set (mask_underrun_loop env s)"
  "Swap_state \<notin> set (mask_underrun_loop env s)"
  by (auto dest: mask_underrun_loop_events)

lemma vc4_atomic_complete_commit_follows:
  "follows_gate Holding (vc4_atomic_complete_commit env s)"
  by (simp add: vc4_atomic_complete_commit_def follows_gate_mask split: option.splits)

lemma vc4_atomic_commit_follows:
  "follows_gate Before (snd (vc4_atomic_commit env s nonblock))"
  using vc4_atomic_complete_commit_follows [of env s]
  by (simp add: vc4_atomic_commit_def split: option.splits)

lemma follows_gate_After:
  "follows_gate After r \<Longrightarrow> \<not> list_ex hardware_step r"
proof (induction r)
  case Nil
  show ?case by simp
next
  case (Cons e r)
  then show ?case by (cases e) (auto split: if_splits)
qed

lemma thread_ok_Holding:
  assumes "thread_ok p th" and "in_hardware_phase th"
  shows "p = Holding"
proof (cases p)
  case Before
  with assms show ?thesis by (simp add: thread_ok_def in_hardware_phase_def)
next
  case Holding
  then show ?thesis .
next
  case After
  with assms follows_gate_After [of "snd th"] show ?thesis
    by (simp add: thread_ok_def in_hardware_phase_def)
qed

lemma thread_ok_step:
  assumes "thread_ok p (d, e # r)"
  shows "\<exists>q. gate_phase_after p e = Some q \<and> thread_ok q (d @ [e], r)"
proof -
  from assms obtain q where q: "gate_phase_after p e = Some q" and f: "follows_gate q r"
    by (auto simp: thread_ok_def split: option.splits)
  from q have "q = Before \<Longrightarrow> p = Before \<and> \<not> hardware_step e"
    by (cases p; cases e) (auto split: if_splits)
  with assms q f show ?thesis
    by (auto simp: thread_ok_def)
qed

lemma sem_after_phase:
  assumes "sem_after n e = Some n'" and "gate_phase_after p e = Some q"
  shows "n' + of_bool (q = Holding) = n + (of_bool (p = Holding) :: nat)"
  using assms by (cases p; cases e) (auto split: if_splits)

lemma count_list_update:
  "i < length ps \<Longrightarrow>
     count_list (ps[i := q]) x + of_bool (ps ! i = x) = count_list ps x + (of_bool (q = x) :: nat)"
proof (induction ps arbitrary: i)
  case Nil
  then show ?case by simp
next
  case (Cons p ps)
  then show ?case by (cases i) auto
qed

lemma count_list_two:
  assumes "i < j" and "j < length ps" and "ps ! i = x" and "ps ! j = x"
  shows "2 \<le> count_list ps x"
  using assms
proof (induction ps arbitrary: i j)
  case Nil
  then show ?case by simp
next
  case (Cons p ps)
  from Cons.prems obtain j' where j: "j = Suc j'" by (cases j) auto
  show ?case
  proof (cases i)
    case 0
    with Cons.prems j have "p = x" and "x \<in> set ps"
      by auto
    then have "count_list ps x \<noteq> 0"
      by (simp only: count_list_0_iff not_not)
    then have "0 < count_list ps x"
      by simp
    with \<open>p = x\<close> show ?thesis by simp
  next
    case (Suc i')
    with Cons.prems j have "2 \<le> count_list ps x"
      by (intro Cons.IH [of i' j']) auto
    then show ?thesis by simp
  qed
qed

lemma gate_inv_step:
  assumes "gate_step c c'" and "gate_inv c"
  shows "gate_inv c'"
  using assms
proof (induction rule: gate_step.induct)
  case (call i ths d e r n n')
  then obtain ps where all: "list_all2 thread_ok ps ths"
    and cnt: "n + count_list ps Holding = 1"
    by (auto simp: gate_inv_def)
  from all call.hyps(1) have len: "i < length ps"
    by (simp add: list_all2_lengthD)
  from all call.hyps(1,2) have "thread_ok (ps ! i) (d, e # r)"
    by (auto simp: list_all2_conv_all_nth)
  from thread_ok_step [OF this] obtain q where q: "gate_phase_after (ps ! i) e = Some q"
    and ok: "thread_ok q (d @ [e], r)"
    by blast
  from all ok have "list_all2 thread_ok (ps[i := q]) (ths[i := (d @ [e], r)])"
    by (rule list_all2_update_cong)
  moreover from sem_after_phase [OF call.hyps(3) q] count_list_update [OF len, of q Holding] cnt
  have "n' + count_list (ps[i := q]) Holding = 1"
    by simp
  ultimately show ?case
    by (auto simp: gate_inv_def)
qed

lemma gate_inv_reachable:
  assumes "\<forall>t \<in> set ts. follows_gate Before t" and "concurrent_commits ts c"
  shows "gate_inv c"
proof -
  have "list_all2 thread_ok (replicate (length ts) Before) (map (\<lambda>t. ([], t)) ts)"
    using assms(1) by (simp add: list_all2_conv_all_nth thread_ok_def)
  moreover have "count_list (replicate (length ts) Before) Holding = 0"
    by (simp add: count_list_0_iff)
  ultimately have init: "gate_inv (async_modeset_init, map (\<lambda>t. ([], t)) ts)"
    by (auto simp: gate_inv_def async_modeset_init_def)
  from assms(2) have "rtranclp gate_step (async_modeset_init, map (\<lambda>t. ([], t)) ts) c"
    by (simp add: concurrent_commits_def)
  then show ?thesis
  proof (induction rule: rtranclp_induct)
    case base
    show ?case by (rule init)
  next
    case (step y z)
    then show ?case by (blast intro: gate_inv_step)
  qed
qed

lemma gate_inv_exclusive:
  assumes "gate_inv c" and "i < j" and "j < length (snd c)"
  shows "\<not> (in_hardware_phase (snd c ! i) \<and> in_hardware_phase (snd c ! j))"
proof
  assume both: "in_hardware_phase (snd c ! i) \<and> in_hardware_phase (snd c ! j)"
  from assms(1) obtain ps where all: "list_all2 thread_ok ps (snd c)"
    and cnt: "fst c + count_list ps Holding = 1"
    by (auto simp: gate_inv_def)
  from all assms(2,3) have len: "j < length ps"
    and "thread_ok (ps ! i) (snd c ! i)" and "thread_ok (ps ! j) (snd c ! j)"
    by (auto simp: list_all2_conv_all_nth)
  with both have "ps ! i = Holding" and "ps ! j = Holding"
    by (auto dest: thread_ok_Holding)
  with assms(2) len have "2 \<le> count_list ps Holding"
    by (rule count_list_two)
  with cnt show False by simp
qed

lemma vc4_atomic_check_hvs_state:
  assumes "vc4_atomic_check helper_check s0 = Some (Success, s)"
  shows "\<exists>h. hvs_priv s = Some h"
proof -
  from assms obtain s4 where "vc4_core_clock_atomic_check s4 = (Success, s)"
    by (rule vc4_atomic_check_SuccessD)
  from vc4_core_clock_atomic_check_pool [OF this] show ?thesis
    by blast
qed

lemma vc4_atomic_commit_full_path:
  assumes full: "\<not> async_update env" "setup_commit_ret env = None" "down_ret env = None"
      "prepare_planes_ret env = None" "nonblock \<or> wait_for_fences_ret env = None"
      "hvs_priv s = Some h"
  shows "fst (vc4_atomic_commit env s nonblock) = Success"
    and "\<exists>pre mid post.
           snd (vc4_atomic_commit env s nonblock)
             = pre @ Down_interruptible # mid @ Swap_state # post @ [Up]
           \<and> \<not> list_ex hardware_step (pre @ mid)
           \<and> Down_interruptible \<notin> set (pre @ mid @ post)
           \<and> Swap_state \<notin> set (pre @ mid @ post)
           \<and> Up \<notin> set (pre @ mid @ post)"
    and "filter hardware_step (snd (vc4_atomic_commit env s nonblock))
           = mask_underrun_loop env s
             @ (if hvs5 env
                then [Clk_request_start (unat (max 500000000 (core_clock_rate h))),
                      Clk_request_done_previous]
                else [])
             @ [Wait_for_fences False, Wait_for_dependencies, Commit_modeset_disables, Ctm_commit]
             @ (if firmware_kms (dev s) then [] else [Pv_muxing_commit])
             @ [Commit_planes, Commit_modeset_enables, Fake_vblank, Commit_hw_done,
                Wait_for_flip_done, Cleanup_planes, Commit_cleanup_done]
             @ (if hvs5 env
                then [Clk_request_start (unat (core_clock_rate h)), Clk_request_done_temporary]
                else [])"
proof -
  from full show "fst (vc4_atomic_commit env s nonblock) = Success"
    by (auto simp: vc4_atomic_commit_def)
  define hw where "hw = filter (\<lambda>e. e \<noteq> Up) (vc4_atomic_complete_commit env s)"
  have "filter (\<lambda>e. e \<noteq> Up) (mask_underrun_loop env s) = mask_underrun_loop env s"
    by (rule filter_True) (auto dest: mask_underrun_loop_events)
  with full have cc: "vc4_atomic_complete_commit env s = hw @ [Up]"
    by (simp add: hw_def vc4_atomic_complete_commit_def)
  from full have hw: "Down_interruptible \<notin> set hw" "Swap_state \<notin> set hw" "Up \<notin> set hw"
    by (auto simp: hw_def vc4_atomic_complete_commit_def dest: mask_underrun_loop_events)
  let ?mid = "Prepare_planes # (if nonblock then [] else [Wait_for_fences True])"
  let ?post = "State_get # (if nonblock then [Queue_work] else []) @ hw"
  from full cc have "snd (vc4_atomic_commit env s nonblock)
      = [Setup_commit] @ Down_interruptible # ?mid @ Swap_state # ?post @ [Up]"
    by (auto simp: vc4_atomic_commit_def)
  moreover have "\<not> list_ex hardware_step ([Setup_commit] @ ?mid)"
    by simp
  moreover from hw have "Down_interruptible \<notin> set ([Setup_commit] @ ?mid @ ?post)"
    "Swap_state \<notin> set ([Setup_commit] @ ?mid @ ?post)" "Up \<notin> set ([Setup_commit] @ ?mid @ ?post)"
    by simp_all
  ultimately show "\<exists>pre mid post.
                snd (vc4_atomic_commit env s nonblock)
                  = pre @ Down_interruptible # mid @ Swap_state # post @ [Up]
                \<and> \<not> list_ex hardware_step (pre @ mid)
                \<and> Down_interruptible \<notin> set (pre @ mid @ post)
                \<and> Swap_state \<notin> set (pre @ mid @ post)
                \<and> Up \<notin> set (pre @ mid @ post)"
    by blast
  from full show "filter hardware_step (snd (vc4_atomic_commit env s nonblock))
              = mask_underrun_loop env s
                @ (if hvs5 env
                   then [Clk_request_start (unat (max 500000000 (core_clock_rate h))),
                         Clk_request_done_previous]
                   else [])
                @ [Wait_for_fences False, Wait_for_dependencies, Commit_modeset_disables, Ctm_commit]
                @ (if firmware_kms (dev s) then [] else [Pv_muxing_commit])
                @ [Commit_planes, Commit_modeset_enables, Fake_vblank, Commit_hw_done,
                   Wait_for_flip_done, Cleanup_planes, Commit_cleanup_done]
                @ (if hvs5 env
                   then [Clk_request_start (unat (core_clock_rate h)), Clk_request_done_temporary]
                   else [])"
    by (auto simp: vc4_atomic_commit_def vc4_atomic_complete_commit_def mask_underrun_loop_filter)
qed

lemma concurrent_commits_exclusive:
  assumes "concurrent_commits (map (\<lambda>(env, s, nonblock). snd (vc4_atomic_commit env s nonblock)) cs) c"
    and "i < j" and "j < length (snd c)"
  shows "\<not> (in_hardware_phase (snd c ! i) \<and> in_hardware_phase (snd c ! j))"
proof -
  have "\<forall>t \<in> set (map (\<lambda>(env, s, nonblock). snd (vc4_atomic_commit env s nonblock)) cs).
          follows_gate Before t"
    by (auto simp: vc4_atomic_commit_follows)
  from gate_inv_reachable [OF this assms(1)] assms(2,3) show ?thesis
    by (rule gate_inv_exclusive)
qed

lemma gate_run:
  "i < length ths \<Longrightarrow> ths ! i = (d, xs @ r) \<Longrightarrow> Down_interruptible \<notin> set xs \<Longrightarrow> Up \<notin> set xs
   \<Longrightarrow> rtranclp gate_step (n, ths) (n, ths[i := (d @ xs, r)])"
proof (induction xs arbitrary: d ths)
  case Nil
  then have "ths[i := (d, r)] = ths"
    by (simp add: list_update_same_conv)
  then show ?case by simp
next
  case (Cons e xs)
  then have "sem_after n e = Some n"
    by (cases e) simp_all
  with Cons.prems have "gate_step (n, ths) (n, ths[i := (d @ [e], xs @ r)])"
    by (intro gate_step.call) simp_all
  moreover from Cons.prems
  have "rtranclp gate_step (n, ths[i := (d @ [e], xs @ r)])
          (n, (ths[i := (d @ [e], xs @ r)])[i := ((d @ [e]) @ xs, r)])"
    by (intro Cons.IH) simp_all
  ultimately show ?case
    by (simp add: converse_rtranclp_into_rtranclp)
qed

lemma example_commit_trace:
  assumes "hvs_priv s = Some h" and "crtcs s = []" and "\<not> firmware_kms (dev s)"
  shows "snd (vc4_atomic_commit example_env s True) =
      [Setup_commit, Down_interruptible, Prepare_planes, Swap_state, State_get, Queue_work,
       Wait_for_fences False, Wait_for_dependencies, Commit_modeset_disables, Ctm_commit,
       Pv_muxing_commit, Commit_planes, Commit_modeset_enables, Fake_vblank, Commit_hw_done,
       Wait_for_flip_done, Cleanup_planes, Commit_cleanup_done, State_put, Up]"
  using assms
  by (simp add: vc4_atomic_commit_def vc4_atomic_complete_commit_def mask_underrun_loop_def
      example_env_def)

text \<open>
  C9. Take a validated transaction committed on the full path (\<^verbatim>\<open>async_update\<close> clear), the
  calls that can fail succeeding, blocking or not. The commit returns success; its calls
  are: some calls, the acquisition of the semaphore, some calls none of which belongs to
  hardware application, \<^verbatim>\<open>drm_atomic_helper_swap_state\<close>, some calls, and last of all
  \<^verbatim>\<open>up\<close>, the semaphore being acquired and released nowhere else; and the calls of
  hardware application are, in this order, the masking of underruns, the temporary clock
  request (on an HVS5), the wait for fences and dependencies, the disabling of outputs,
  the colour matrix, the muxing (unless the firmware drives the display), the planes, the
  enabling of outputs, the fake vblank, the hardware-done signal, the wait for flips, the
  cleanup of planes, the cleanup-done signal and the final clock request (on an HVS5).
  Consequently, when any number of commits (of any transactions, on any path) run
  concurrently on the semaphore of one permit, whatever the interleaving of their calls,
  no two of them are ever both inside their hardware application phase: the one that
  begins it second does so after the other has completed it.
\<close>

theorem commit_gate_order:
  fixes s0 s :: "'l::len drm_atomic_state"
    and cs :: "(commit_env \<times> 'l drm_atomic_state \<times> bool) list"
  shows "(vc4_atomic_check helper_check s0 = Some (Success, s)
          \<and> \<not> async_update env \<and> setup_commit_ret env = None \<and> down_ret env = None
          \<and> prepare_planes_ret env = None \<and> (nonblock \<or> wait_for_fences_ret env = None) \<longrightarrow>
          fst (vc4_atomic_commit env s nonblock) = Success
          \<and> (\<exists>pre mid post.
                snd (vc4_atomic_commit env s nonblock)
                  = pre @ Down_interruptible # mid @ Swap_state # post @ [Up]
                \<and> \<not> list_ex hardware_step (pre @ mid)
                \<and> Down_interruptible \<notin> set (pre @ mid @ post)
                \<and> Swap_state \<notin> set (pre @ mid @ post)
                \<and> Up \<notin> set (pre @ mid @ post))
          \<and> (\<exists>h. hvs_priv s = Some h
                \<and> filter hardware_step (snd (vc4_atomic_commit env s nonblock))
                    = mask_underrun_loop env s
                      @ (if hvs5 env
                         then [Clk_request_start (unat (max 500000000 (core_clock_rate h))),
                               Clk_request_done_previous]
                         else [])
                      @ [Wait_for_fences False, Wait_for_dependencies, Commit_modeset_disables,
                         Ctm_commit]
                      @ (if firmware_kms (dev s) then [] else [Pv_muxing_commit])
                      @ [Commit_planes, Commit_modeset_enables, Fake_vblank, Commit_hw_done,
                         Wait_for_flip_done, Cleanup_planes, Commit_cleanup_done]
                      @ (if hvs5 env
                         then [Clk_request_start (unat (core_clock_rate h)),
                               Clk_request_done_temporary]
                         else [])))
       \<and> (\<forall>c i j.
              concurrent_commits
                (map (\<lambda>(env, s, nonblock). snd (vc4_atomic_commit env s nonblock)) cs) c
              \<and> i < j \<and> j < length (snd c) \<longrightarrow>
              \<not> (in_hardware_phase (snd c ! i) \<and> in_hardware_phase (snd c ! j)))"
proof (intro conjI impI allI)
  fix c i j
  assume "concurrent_commits
            (map (\<lambda>(env, s, nonblock). snd (vc4_atomic_commit env s nonblock)) cs) c
          \<and> i < j \<and> j < length (snd c)"
  then show "\<not> (in_hardware_phase (snd c ! i) \<and> in_hardware_phase (snd c ! j))"
    using concurrent_commits_exclusive [of cs c i j] by blast
next
  assume a: "vc4_atomic_check helper_check s0 = Some (Success, s)
          \<and> \<not> async_update env \<and> setup_commit_ret env = None \<and> down_ret env = None
          \<and> prepare_planes_ret env = None \<and> (nonblock \<or> wait_for_fences_ret env = None)"
  then obtain h where h: "hvs_priv s = Some h"
    using vc4_atomic_check_hvs_state [of helper_check s0 s] by blast
  from a h have full: "\<not> async_update env" "setup_commit_ret env = None" "down_ret env = None"
      "prepare_planes_ret env = None" "nonblock \<or> wait_for_fences_ret env = None"
      "hvs_priv s = Some h"
    by simp_all
  show "fst (vc4_atomic_commit env s nonblock) = Success"
    by (rule vc4_atomic_commit_full_path(1) [OF full])
  show "\<exists>pre mid post.
                snd (vc4_atomic_commit env s nonblock)
                  = pre @ Down_interruptible # mid @ Swap_state # post @ [Up]
                \<and> \<not> list_ex hardware_step (pre @ mid)
                \<and> Down_interruptible \<notin> set (pre @ mid @ post)
                \<and> Swap_state \<notin> set (pre @ mid @ post)
                \<and> Up \<notin> set (pre @ mid @ post)"
    by (rule vc4_atomic_commit_full_path(2) [OF full])
  from h vc4_atomic_commit_full_path(3) [OF full]
  show "\<exists>h. hvs_priv s = Some h
                \<and> filter hardware_step (snd (vc4_atomic_commit env s nonblock))
                    = mask_underrun_loop env s
                      @ (if hvs5 env
                         then [Clk_request_start (unat (max 500000000 (core_clock_rate h))),
                               Clk_request_done_previous]
                         else [])
                      @ [Wait_for_fences False, Wait_for_dependencies, Commit_modeset_disables,
                         Ctm_commit]
                      @ (if firmware_kms (dev s) then [] else [Pv_muxing_commit])
                      @ [Commit_planes, Commit_modeset_enables, Fake_vblank, Commit_hw_done,
                         Wait_for_flip_done, Cleanup_planes, Commit_cleanup_done]
                      @ (if hvs5 env
                         then [Clk_request_start (unat (core_clock_rate h)),
                               Clk_request_done_temporary]
                         else [])"
    by blast
qed

text \<open>
  The theorem at two non-blocking commits of a validated empty transaction. The first
  has acquired the semaphore and begun hardware application; the second has only set up
  its commit, is outside the hardware phase, and its acquisition cannot return as the
  count is 0.
\<close>

theorem commit_gate_order_witness:
  "\<exists>s. vc4_atomic_check (\<lambda>s. (Success, s)) (example_transaction example_dev [] []) = Some (Success, s)
   \<and> fst (vc4_atomic_commit example_env s True) = Success
   \<and> concurrent_commits
        (map (\<lambda>(env, s, nonblock). snd (vc4_atomic_commit env s nonblock))
           [(example_env, s, True), (example_env, s, True)])
        (0,
         [([Setup_commit, Down_interruptible, Prepare_planes, Swap_state, State_get, Queue_work,
            Wait_for_fences False],
           [Wait_for_dependencies, Commit_modeset_disables, Ctm_commit,
            Pv_muxing_commit, Commit_planes, Commit_modeset_enables, Fake_vblank, Commit_hw_done,
            Wait_for_flip_done, Cleanup_planes, Commit_cleanup_done, State_put, Up]),
          ([Setup_commit],
           [Down_interruptible, Prepare_planes, Swap_state, State_get, Queue_work,
            Wait_for_fences False, Wait_for_dependencies, Commit_modeset_disables, Ctm_commit,
            Pv_muxing_commit, Commit_planes, Commit_modeset_enables, Fake_vblank, Commit_hw_done,
            Wait_for_flip_done, Cleanup_planes, Commit_cleanup_done, State_put, Up])])
   \<and> in_hardware_phase
        ([Setup_commit, Down_interruptible, Prepare_planes, Swap_state, State_get, Queue_work,
          Wait_for_fences False],
         [Wait_for_dependencies, Commit_modeset_disables, Ctm_commit,
          Pv_muxing_commit, Commit_planes, Commit_modeset_enables, Fake_vblank, Commit_hw_done,
          Wait_for_flip_done, Cleanup_planes, Commit_cleanup_done, State_put, Up])
   \<and> \<not> in_hardware_phase
        ([Setup_commit],
         [Down_interruptible, Prepare_planes, Swap_state, State_get, Queue_work,
          Wait_for_fences False, Wait_for_dependencies, Commit_modeset_disables, Ctm_commit,
          Pv_muxing_commit, Commit_planes, Commit_modeset_enables, Fake_vblank, Commit_hw_done,
          Wait_for_flip_done, Cleanup_planes, Commit_cleanup_done, State_put, Up])
   \<and> sem_after 0 Down_interruptible = None"
proof -
  let ?rest = "[Wait_for_dependencies, Commit_modeset_disables, Ctm_commit,
           Pv_muxing_commit, Commit_planes, Commit_modeset_enables, Fake_vblank, Commit_hw_done,
           Wait_for_flip_done, Cleanup_planes, Commit_cleanup_done, State_put, Up]"
  let ?held = "[Prepare_planes, Swap_state, State_get, Queue_work, Wait_for_fences False]"
  let ?t = "Setup_commit # Down_interruptible # ?held @ ?rest"
  let ?a = "([Setup_commit, Down_interruptible] @ ?held, ?rest)"
  let ?b = "([Setup_commit], Down_interruptible # ?held @ ?rest)"
  obtain s :: "64 drm_atomic_state"
    where chk: "vc4_atomic_check (\<lambda>s. (Success, s)) (example_transaction example_dev [] []) = Some (Success, s)"
      and s: "crtcs s = []" "\<not> firmware_kms (dev s)" "hvs_priv s \<noteq> None"
    by (simp add: vc4_atomic_check_def vc4_pv_muxing_atomic_check_def vc4_hvs_get_global_state_def
        vc4_hvs_channels_duplicate_state_def Let_def
        vc4_ctm_atomic_check_def ctm_enable_loop.simps
        vc4_load_tracker_atomic_check_def load_tracker_get_state_def vc4_load_tracker_duplicate_state_def
        vc4_core_clock_atomic_check_def example_defs)
  from s obtain h where "hvs_priv s = Some h"
    by blast
  from example_commit_trace [OF this s(1,2)]
  have trace: "snd (vc4_atomic_commit example_env s True) = ?t"
    by simp
  have "rtranclp gate_step (1, [([], ?t), ([], ?t)]) (1, [([Setup_commit], Down_interruptible # ?held @ ?rest), ([], ?t)])"
    using gate_run [of 0 "[([], ?t), ([], ?t)]" "[]" "[Setup_commit]" "Down_interruptible # ?held @ ?rest" 1]
    by simp
  moreover have "rtranclp gate_step (1, [([Setup_commit], Down_interruptible # ?held @ ?rest), ([], ?t)])
          (1, [([Setup_commit], Down_interruptible # ?held @ ?rest), ?b])"
    using gate_run [of 1 "[([Setup_commit], Down_interruptible # ?held @ ?rest), ([], ?t)]" "[]" "[Setup_commit]"
        "Down_interruptible # ?held @ ?rest" 1]
    by simp
  moreover have "gate_step (1, [([Setup_commit], Down_interruptible # ?held @ ?rest), ?b])
          (0, [([Setup_commit, Down_interruptible], ?held @ ?rest), ?b])"
    using gate_step.call [of 0 "[([Setup_commit], Down_interruptible # ?held @ ?rest), ?b]" "[Setup_commit]"
        Down_interruptible "?held @ ?rest" 1 0]
    by simp
  moreover have "rtranclp gate_step (0, [([Setup_commit, Down_interruptible], ?held @ ?rest), ?b])
          (0, [?a, ?b])"
    using gate_run [of 0 "[([Setup_commit, Down_interruptible], ?held @ ?rest), ?b]"
        "[Setup_commit, Down_interruptible]" ?held ?rest 0]
    by simp
  ultimately have run: "concurrent_commits [?t, ?t] (0, [?a, ?b])"
    by (simp add: concurrent_commits_def async_modeset_init_def)
  have a: "in_hardware_phase ?a"
    by (simp add: in_hardware_phase_def)
  note order = commit_gate_order [of "\<lambda>s. (Success, s)" "example_transaction example_dev [] []" s
      example_env True "[(example_env, s, True), (example_env, s, True)]"]
  from order chk have ok: "fst (vc4_atomic_commit example_env s True) = Success"
    by (simp add: example_env_def)
  from order [THEN conjunct2, rule_format, of "(0, [?a, ?b])" 0 1] run
  have "\<not> (in_hardware_phase ?a \<and> in_hardware_phase ?b)"
    by (simp add: trace)
  with a ok run chk show ?thesis
    by (intro exI [of _ s]) (simp add: trace)
qed

end
